theory Spec2Isabelle
  imports Main
begin

section \<open>Capture sets (index.ts, class CaptureSet)\<close>

text \<open>
  A JavaScript \<^verbatim>\<open>throw new Error(msg)\<close> is the value \<open>Inl (Error msg)\<close> of a sum type.
\<close>

datatype error = Error string

text \<open>
  Capture keys are objects compared by reference: the type \<open>'k\<close> is the type of their
  identities. A \<^verbatim>\<open>Set\<close> is the list of its members in insertion order, a \<^verbatim>\<open>Map\<close> the list
  of its entries in insertion order (JavaScript iterates both in that order).
\<close>

definition Set_add :: "'a \<Rightarrow> 'a list \<Rightarrow> 'a list" where
  "Set_add x xs = (if x \<in> set xs then xs else xs @ [x])"

definition Set_of :: "'a list \<Rightarrow> 'a list" where
  "Set_of xs = fold Set_add xs []"

definition Map_has :: "'a \<Rightarrow> ('a \<times> 'b) list \<Rightarrow> bool" where
  "Map_has k m = (k \<in> fst ` set m)"

definition Map_delete :: "'a \<Rightarrow> ('a \<times> 'b) list \<Rightarrow> ('a \<times> 'b) list" where
  "Map_delete k m = filter (\<lambda>kv. fst kv \<noteq> k) m"

definition Map_set :: "'a \<Rightarrow> 'b \<Rightarrow> ('a \<times> 'b) list \<Rightarrow> ('a \<times> 'b) list" where
  "Map_set k v m =
     (if Map_has k m then map (\<lambda>kv. if fst kv = k then (k, v) else kv) m else m @ [(k, v)])"

datatype ('k, 'c) CaptureSet =
  CaptureSet (overloadedKeys: "'k list") (definedKeys: "('k \<times> 'c) list")

text \<open>\<^verbatim>\<open>CaptureSet.add\<close>, lines 21-30: the method mutates \<^verbatim>\<open>this\<close>; the model returns the new set.\<close>

definition CaptureSet_add :: "'k \<Rightarrow> 'c \<Rightarrow> ('k, 'c) CaptureSet \<Rightarrow> ('k, 'c) CaptureSet" where
  "CaptureSet_add key io this =
     (if key \<in> set (overloadedKeys this) then this
      else if Map_has key (definedKeys this) then
        CaptureSet (Set_add key (overloadedKeys this)) (Map_delete key (definedKeys this))
      else CaptureSet (overloadedKeys this) (Map_set key io (definedKeys this)))"

text \<open>\<^verbatim>\<open>CaptureSet.get\<close>, lines 32-34: \<^verbatim>\<open>undefined\<close> is \<open>None\<close>.\<close>

definition CaptureSet_get :: "'k \<Rightarrow> ('k, 'c) CaptureSet \<Rightarrow> 'c option" where
  "CaptureSet_get key this = map_of (definedKeys this) key"

text \<open>The constructor, lines 36-45: one pass over the children, in order.\<close>

definition merge_child :: "('k, 'c) CaptureSet \<Rightarrow> ('k, 'c) CaptureSet \<Rightarrow> ('k, 'c) CaptureSet" where
  "merge_child child this =
     fold (\<lambda>kv acc. CaptureSet_add (fst kv) (snd kv) acc) (definedKeys child)
       (CaptureSet (fold Set_add (overloadedKeys child) (overloadedKeys this)) (definedKeys this))"

definition CaptureSet_new :: "('k, 'c) CaptureSet list \<Rightarrow> ('k, 'c) CaptureSet" where
  "CaptureSet_new captureSets = fold merge_child captureSets (CaptureSet [] [])"

text \<open>\<^verbatim>\<open>flatMap\<close>, lines 230-232.\<close>

definition flatMap :: "'a list \<Rightarrow> ('a \<Rightarrow> 'b list) \<Rightarrow> 'b list" where
  "flatMap arr fn = concat (map fn arr)"

text \<open>\<^verbatim>\<open>crossProductCaptures\<close>, lines 77-92.\<close>

fun crossProductCaptures :: "('k, 'c) CaptureSet list list \<Rightarrow> error + ('k, 'c) CaptureSet list" where
  "crossProductCaptures [] =
     Inl (Error ''cross product is undefined when no CaptureSet arrays are provided'')"
| "crossProductCaptures [only] = Inr only"
| "crossProductCaptures (foos # rest) =
     (case crossProductCaptures rest of
        Inl e \<Rightarrow> Inl e
      | Inr bars \<Rightarrow>
          if length foos = 0 then Inr bars
          else Inr (flatMap foos (\<lambda>foo. map (\<lambda>bar. CaptureSet_new [foo, bar]) bars)))"

section \<open>Results (index.ts, classes Valid, Invalid, Failure)\<close>

text \<open>
  Result and capture objects are immutable once built, and the program compares them by
  reference (the memoisation cache, the \<^verbatim>\<open>productionContext\<close> weak map, the \<^verbatim>\<open>Set\<close> of
  \<^verbatim>\<open>getCanonical\<close>). An object is therefore modelled by its fields together with the
  identity it received when it was allocated (\<open>oid\<close>, \<open>cid\<close>): two objects of one run
  are the same object exactly when they are equal here. Input values and result values
  share the type \<open>'v\<close> (\<^verbatim>\<open>chain\<close> feeds one stage's value to the next as its input).
  The field \<^verbatim>\<open>value\<close> is \<open>the_value\<close>, the fields \<^verbatim>\<open>input\<close> and \<^verbatim>\<open>output\<close> of a capture
  are \<open>capture_input\<close> and \<open>capture_output\<close>.
\<close>

datatype ('v, 'k) ValidationResult =
    Valid (oid: nat) (the_value: 'v) (warnings: "string list")
      (captures: "('k, ('v, 'k) Capture) CaptureSet list")
  | Invalid (oid: nat) (the_value: 'v) (errors: "string list") (warnings: "string list")
      (captures: "('k, ('v, 'k) Capture) CaptureSet list")
  | Failure (oid: nat) (errors: "string list") (warnings: "string list")
and ('v, 'k) Capture =
    Capture (cid: nat) (capture_input: 'v) (capture_output: "('v, 'k) ValidationResult")

text \<open>
  Reading a field that the class does not assign gives \<^verbatim>\<open>undefined\<close>, here \<open>None\<close>:
  \<^verbatim>\<open>errors\<close> of a \<^verbatim>\<open>Valid\<close>, \<^verbatim>\<open>value\<close> and \<^verbatim>\<open>captures\<close> of a \<^verbatim>\<open>Failure\<close>.
\<close>

fun value_field :: "('v, 'k) ValidationResult \<Rightarrow> 'v option" where
  "value_field (Valid _ v _ _) = Some v"
| "value_field (Invalid _ v _ _ _) = Some v"
| "value_field (Failure _ _ _) = None"

fun errors_field :: "('v, 'k) ValidationResult \<Rightarrow> string list option" where
  "errors_field (Valid _ _ _ _) = None"
| "errors_field (Invalid _ _ es _ _) = Some es"
| "errors_field (Failure _ es _) = Some es"

fun captures_field ::
  "('v, 'k) ValidationResult \<Rightarrow> ('k, ('v, 'k) Capture) CaptureSet list option" where
  "captures_field (Valid _ _ _ cs) = Some cs"
| "captures_field (Invalid _ _ _ _ cs) = Some cs"
| "captures_field (Failure _ _ _) = None"

text \<open>The expression \<^verbatim>\<open>result.errors || []\<close>.\<close>

definition errors_or_empty :: "('v, 'k) ValidationResult \<Rightarrow> string list" where
  "errors_or_empty r = (case errors_field r of None \<Rightarrow> [] | Some es \<Rightarrow> es)"

text \<open>\<^verbatim>\<open>isValid\<close>, \<^verbatim>\<open>isInvalid\<close>, \<^verbatim>\<open>isFailure\<close>, lines 330-343: the \<^verbatim>\<open>instanceof\<close> tests.\<close>

fun isValid :: "('v, 'k) ValidationResult \<Rightarrow> bool" where
  "isValid (Valid _ _ _ _) = True"
| "isValid _ = False"

fun isInvalid :: "('v, 'k) ValidationResult \<Rightarrow> bool" where
  "isInvalid (Invalid _ _ _ _ _) = True"
| "isInvalid _ = False"

fun isFailure :: "('v, 'k) ValidationResult \<Rightarrow> bool" where
  "isFailure (Failure _ _ _) = True"
| "isFailure _ = False"

subsection \<open>The state of a run\<close>

text \<open>
  \<open>nextId\<close> is the allocator of object identities; \<open>productionContext\<close> is the
  module's weak map from a result (its identity) to the transformer that produced it
  (its identity); \<open>cache\<close> is the cache of the running \<^verbatim>\<open>__transform__\<close> call, the weak
  map from a transformer to a \<^verbatim>\<open>Map\<close> from inputs to results, flattened to pairs.
\<close>

record ('v, 'k) state =
  nextId :: nat
  productionContext :: "nat \<rightharpoonup> nat"
  cache :: "(nat \<times> 'v) \<rightharpoonup> ('v, 'k) ValidationResult"

type_synonym ('a, 'v, 'k) comp = "('v, 'k) state \<Rightarrow> (error + 'a) \<times> ('v, 'k) state"

text \<open>A step that cannot throw, as a computation.\<close>

definition ok :: "(('v, 'k) state \<Rightarrow> 'a \<times> ('v, 'k) state) \<Rightarrow> ('a, 'v, 'k) comp" where
  "ok m s = (case m s of (x, s1) \<Rightarrow> (Inr x, s1))"

subsection \<open>The exported constructors\<close>

text \<open>
  A parameter of type \<^verbatim>\<open>string | string[]\<close> is a \<open>msgs\<close>; an omitted (or \<^verbatim>\<open>undefined\<close>)
  argument is \<open>None\<close> and takes the default of the declaration.
\<close>

datatype msgs = Str string | Strs "string list"

fun as_array :: "msgs \<Rightarrow> string list" where
  "as_array (Str x) = [x]"
| "as_array (Strs xs) = xs"

definition with_default :: "'a option \<Rightarrow> 'a \<Rightarrow> 'a" where
  "with_default arg d = (case arg of None \<Rightarrow> d | Some x \<Rightarrow> x)"

definition valid ::
  "'v \<Rightarrow> msgs option \<Rightarrow> ('k, ('v, 'k) Capture) CaptureSet list option \<Rightarrow>
   ('v, 'k) state \<Rightarrow> ('v, 'k) ValidationResult \<times> ('v, 'k) state" where
  "valid v ws cs s =
     (Valid (nextId s) v (as_array (with_default ws (Strs [])))
        (with_default cs [CaptureSet_new []]),
      s\<lparr>nextId := Suc (nextId s)\<rparr>)"

definition invalid ::
  "'v \<Rightarrow> msgs option \<Rightarrow> msgs option \<Rightarrow> ('k, ('v, 'k) Capture) CaptureSet list option \<Rightarrow>
   ('v, 'k) state \<Rightarrow> ('v, 'k) ValidationResult \<times> ('v, 'k) state" where
  "invalid v es ws cs s =
     (Invalid (nextId s) v (as_array (with_default es (Strs [])))
        (as_array (with_default ws (Strs []))) (with_default cs [CaptureSet_new []]),
      s\<lparr>nextId := Suc (nextId s)\<rparr>)"

definition failure ::
  "msgs \<Rightarrow> msgs option \<Rightarrow> ('v, 'k) state \<Rightarrow> ('v, 'k) ValidationResult \<times> ('v, 'k) state" where
  "failure es ws s =
     (Failure (nextId s) (as_array es) (as_array (with_default ws (Strs []))),
      s\<lparr>nextId := Suc (nextId s)\<rparr>)"

subsection \<open>The methods of a result\<close>

text \<open>
  \<^verbatim>\<open>bind\<close>, lines 100-120. The branch of line 105 (a result that is none of the three
  classes) cannot be taken by a value of the datatype.
\<close>

definition bind ::
  "('v, 'k) ValidationResult \<Rightarrow> ('v \<Rightarrow> (('v, 'k) ValidationResult, 'v, 'k) comp) \<Rightarrow>
   (('v, 'k) ValidationResult, 'v, 'k) comp" where
  "bind self binding s =
     (if isFailure self then (Inr self, s)
      else
        (case binding (the_value self) s of
           (Inl e, s1) \<Rightarrow> (Inl e, s1)
         | (Inr result, s1) \<Rightarrow>
             (let warnings' = warnings self @ warnings result;
                  errors' = errors_or_empty self @ errors_or_empty result
              in if isFailure result then ok (failure (Strs errors') (Some (Strs warnings'))) s1
                 else
                   (case crossProductCaptures [captures self, captures result] of
                      Inl e \<Rightarrow> (Inl e, s1)
                    | Inr captures' \<Rightarrow>
                        if length errors' \<noteq> 0
                        then ok (invalid (the_value result) (Some (Strs errors'))
                                   (Some (Strs warnings')) (Some captures')) s1
                        else ok (valid (the_value result) (Some (Strs warnings'))
                                   (Some captures')) s1))))"

text \<open>\<^verbatim>\<open>get\<close>, lines 146-148, 182-184 and 215-217.\<close>

fun get :: "('v, 'k) ValidationResult \<Rightarrow> 'k \<Rightarrow> ('v, 'k) Capture option list" where
  "get (Valid _ _ _ cs) key = map (\<lambda>captureSet. CaptureSet_get key captureSet) cs"
| "get (Invalid _ _ _ _ cs) key = map (\<lambda>captureSet. CaptureSet_get key captureSet) cs"
| "get (Failure _ _ _) key = []"

text \<open>\<^verbatim>\<open>just\<close>, lines 94-96, and \<^verbatim>\<open>getCanonical\<close>, lines 122-129.\<close>

definition just :: "'a option \<Rightarrow> bool" where
  "just t = (t \<noteq> None)"

definition getCanonical :: "('v, 'k) ValidationResult \<Rightarrow> 'k \<Rightarrow> ('v, 'k) Capture option" where
  "getCanonical self key =
     (let rawValues = Set_of (filter just (get self key))
      in if length rawValues = 1 then hd rawValues else None)"

section \<open>Merging results (index.ts, MultiMap and mergeResults)\<close>

text \<open>
  \<^verbatim>\<open>MultiMap\<close>, lines 239-252: a \<^verbatim>\<open>Map\<close> from keys to arrays; \<^verbatim>\<open>get\<close> creates the
  entry of an absent key, \<^verbatim>\<open>add\<close> pushes the values onto the key's array. The keys
  are what \<^verbatim>\<open>productionContext.get\<close> returns: a transformer or \<^verbatim>\<open>undefined\<close>.
\<close>

definition MultiMap_add :: "'a \<Rightarrow> 'b list \<Rightarrow> ('a \<times> 'b list) list \<Rightarrow> ('a \<times> 'b list) list" where
  "MultiMap_add key vals m =
     (if Map_has key m then map (\<lambda>kv. if fst kv = key then (key, snd kv @ vals) else kv) m
      else m @ [(key, [] @ vals)])"

text \<open>
  The loop of lines 269-276, which stops at the first \<^verbatim>\<open>Failure\<close>: the accumulator
  is the array \<^verbatim>\<open>values\<close> and the multi-map \<^verbatim>\<open>allCaptures\<close>.
\<close>

fun merge_loop ::
  "(nat \<rightharpoonup> nat) \<Rightarrow> ('v, 'k) ValidationResult list \<Rightarrow>
   'v list \<times> (nat option \<times> ('k, ('v, 'k) Capture) CaptureSet list) list \<Rightarrow>
   'v list \<times> (nat option \<times> ('k, ('v, 'k) Capture) CaptureSet list) list" where
  "merge_loop pc [] acc = acc"
| "merge_loop pc (result # rest) acc =
     (if isFailure result then acc
      else merge_loop pc rest
             (fst acc @ [the_value result],
              MultiMap_add (pc (oid result)) (captures result) (snd acc)))"

text \<open>\<^verbatim>\<open>mergeResults\<close>, lines 254-294.\<close>

definition mergeResults ::
  "('v, 'k) ValidationResult list \<Rightarrow>
   ('v list \<Rightarrow> (('v, 'k) ValidationResult, 'v, 'k) comp) \<Rightarrow>
   (('v, 'k) ValidationResult, 'v, 'k) comp" where
  "mergeResults results mapping s =
     (let warnings' = flatMap results warnings;
          errors' = flatMap results errors_or_empty;
          acc = merge_loop (productionContext s) results ([], []);
          values = fst acc;
          allCaptures = snd acc
      in case crossProductCaptures (map snd allCaptures) of
           Inl e \<Rightarrow> (Inl e, s)
         | Inr captures' \<Rightarrow>
             if length values = length results then
               (case mapping values s of
                  (Inl e, s1) \<Rightarrow> (Inl e, s1)
                | (Inr v, s1) \<Rightarrow>
                    if isFailure v then
                      ok (failure (Strs (errors v @ errors'))
                            (Some (Strs (warnings v @ warnings')))) s1
                    else if length errors' \<noteq> 0 then
                      bind v (\<lambda>foo. ok (invalid foo (Some (Strs errors'))
                                          (Some (Strs warnings')) (Some captures'))) s1
                    else
                      bind v (\<lambda>foo. ok (valid foo (Some (Strs warnings')) (Some captures'))) s1)
             else ok (failure (Strs errors') (Some (Strs warnings'))) s)"

section \<open>The traversal (index.ts, __transform__)\<close>

text \<open>
  A transformer is a function object: its identity (the key of the cache and of
  \<^verbatim>\<open>productionContext\<close>) and its body. The second argument of every body is the closure
  \<^verbatim>\<open>transform\<close> of the running \<^verbatim>\<open>__transform__\<close> call, whose cache is the \<open>cache\<close> of the
  state: a body that calls it calls \<open>transform\<close> below. A combinator that returns a new
  function takes the identity of that function as its first argument.
\<close>

type_synonym ('v, 'k) Transformer =
  "nat \<times> ('v \<Rightarrow> (('v, 'k) ValidationResult, 'v, 'k) comp)"

text \<open>The inner function \<^verbatim>\<open>transform\<close>, lines 305-322.\<close>

definition transform ::
  "'v \<Rightarrow> ('v, 'k) Transformer \<Rightarrow> (('v, 'k) ValidationResult, 'v, 'k) comp" where
  "transform i t s =
     (case cache s (fst t, i) of
        Some bar \<Rightarrow> (Inr bar, s)
      | None \<Rightarrow>
          (case snd t i s of
             (Inl e, s1) \<Rightarrow> (Inl e, s1)
           | (Inr result, s1) \<Rightarrow>
               (Inr result,
                s1\<lparr>productionContext := (productionContext s1)(oid result \<mapsto> fst t),
                   cache := (cache s1)((fst t, i) \<mapsto> result)\<rparr>)))"

text \<open>
  \<^verbatim>\<open>__transform__\<close> (exported as \<^verbatim>\<open>transform\<close>), lines 296-325: a fresh cache for the call
  (the caller's cache, if any, is back in place afterwards), and the root transformer
  is called directly.
\<close>

definition transform_root ::
  "'v \<Rightarrow> ('v, 'k) Transformer \<Rightarrow> (('v, 'k) ValidationResult, 'v, 'k) comp" where
  "transform_root i transformer s =
     (case snd transformer i (s\<lparr>cache := Map.empty\<rparr>) of
        (r, s1) \<Rightarrow> (r, s1\<lparr>cache := cache s\<rparr>))"

text \<open>\<^verbatim>\<open>capture\<close>, lines 59-71. The object literal of line 67 is a new capture object.\<close>

definition capture :: "nat \<Rightarrow> 'k \<Rightarrow> ('v, 'k) Transformer \<Rightarrow> ('v, 'k) Transformer" where
  "capture self key transformer =
     (self, \<lambda>i s.
        (case transform i transformer s of
           (Inl e, s1) \<Rightarrow> (Inl e, s1)
         | (Inr out, s1) \<Rightarrow>
             (let captures' = CaptureSet_add key (Capture (nextId s1) i out) (CaptureSet_new []);
                  s2 = s1\<lparr>nextId := Suc (nextId s1)\<rparr>
              in bind out (\<lambda>v. ok (valid v None (Some [captures']))) s2)))"

text \<open>
  \<^verbatim>\<open>chain\<close>, lines 399-411. \<open>chain_rest\<close> is the \<^verbatim>\<open>reduce\<close> over the later stages. With no
  transformer at all, \<^verbatim>\<open>first\<close> is \<^verbatim>\<open>undefined\<close> and \<^verbatim>\<open>cache.set(undefined, ...)\<close> throws a
  \<^verbatim>\<open>TypeError\<close>.
\<close>

fun chain_rest ::
  "('v, 'k) Transformer list \<Rightarrow> ('v, 'k) ValidationResult \<Rightarrow>
   (('v, 'k) ValidationResult, 'v, 'k) comp" where
  "chain_rest [] lastResult s = (Inr lastResult, s)"
| "chain_rest (transformer # rest) lastResult s =
     (case bind lastResult (\<lambda>lastValue. transform lastValue transformer) s of
        (Inl e, s1) \<Rightarrow> (Inl e, s1)
      | (Inr r, s1) \<Rightarrow> chain_rest rest r s1)"

definition chain :: "nat \<Rightarrow> ('v, 'k) Transformer list \<Rightarrow> ('v, 'k) Transformer" where
  "chain self transformers =
     (self, \<lambda>i s.
        (case transformers of
           [] \<Rightarrow> (Inl (Error ''TypeError: Invalid value used as weak map key''), s)
         | first # rest \<Rightarrow>
             (case transform i first s of
                (Inl e, s1) \<Rightarrow> (Inl e, s1)
              | (Inr result, s1) \<Rightarrow> chain_rest rest result s1)))"

section \<open>Notions used in the statements\<close>

text \<open>
  A key of a capture set is overloaded for good when it is in \<open>overloadedKeys\<close> and has
  no entry in \<open>definedKeys\<close>.
\<close>

definition dead :: "'k \<Rightarrow> ('k, 'c) CaptureSet \<Rightarrow> bool" where
  "dead k cs = (k \<in> set (overloadedKeys cs) \<and> CaptureSet_get k cs = None)"

text \<open>A computation extends the cache when every entry it finds is still there afterwards.\<close>

definition extends_cache :: "('a, 'v, 'k) comp \<Rightarrow> bool" where
  "extends_cache m = (\<forall>s. cache s \<subseteq>\<^sub>m cache (snd (m s)))"

text \<open>
  The outcome of a result: its value (\<open>None\<close> for a \<^verbatim>\<open>Failure\<close>), its errors and its
  warnings. \<open>run_stages\<close> is what sequencing makes of the outcomes of successive
  stages: a stage runs on the value of the stage before it, the diagnostics are
  appended, and nothing runs after a failure.
\<close>

type_synonym 'v outcome = "'v option \<times> string list \<times> string list"

definition outcome :: "('v, 'k) ValidationResult \<Rightarrow> 'v outcome" where
  "outcome r = (value_field r, errors_or_empty r, warnings r)"

fun run_stages :: "('v \<Rightarrow> 'v outcome) list \<Rightarrow> 'v outcome \<Rightarrow> 'v outcome" where
  "run_stages [] acc = acc"
| "run_stages (g # gs) (None, es, ws) = run_stages gs (None, es, ws)"
| "run_stages (g # gs) (Some v, es, ws) =
     (case g v of (v', es', ws') \<Rightarrow> run_stages gs (v', es @ es', ws @ ws'))"

text \<open>The errors and the warnings of three stages, concatenated in stage order.\<close>

definition stage_order ::
  "('v \<Rightarrow> 'v outcome) \<Rightarrow> ('v \<Rightarrow> 'v outcome) \<Rightarrow> ('v \<Rightarrow> 'v outcome) \<Rightarrow> 'v \<Rightarrow>
   string list \<times> string list" where
  "stage_order ga gb gc i =
     (case ga i of
        (None, ea, wa) \<Rightarrow> (ea, wa)
      | (Some va, ea, wa) \<Rightarrow>
          (case gb va of
             (None, eb, wb) \<Rightarrow> (ea @ eb, wa @ wb)
           | (Some vb, eb, wb) \<Rightarrow>
               (case gc vb of (vc, ec, wc) \<Rightarrow> (ea @ eb @ ec, wa @ wb @ wc))))"

text \<open>
  A transformer is a stage with outcome function \<open>g\<close>, relative to an invariant \<open>I\<close> of
  the state of the traversal, when a request for it in a state that satisfies \<open>I\<close>
  returns a result with outcome \<open>g i\<close>, keeps \<open>I\<close>, and leaves alone the cache entries of
  the transformers in \<open>frame\<close>. The invariant is kept by the allocation of an object and
  by the traversal recording the result of a transformer in \<open>frame\<close>.
\<close>

definition stage ::
  "(('v, 'k) state \<Rightarrow> bool) \<Rightarrow> nat set \<Rightarrow> ('v, 'k) Transformer \<Rightarrow> ('v \<Rightarrow> 'v outcome) \<Rightarrow> bool" where
  "stage I frame t g =
     (\<forall>i s. I s \<longrightarrow>
        (\<exists>r s1. transform i t s = (Inr r, s1) \<and> outcome r = g i \<and> I s1 \<and>
                 (\<forall>n\<in>frame. \<forall>x. cache s1 (n, x) = cache s (n, x))))"

definition traversal_invariant :: "(('v, 'k) state \<Rightarrow> bool) \<Rightarrow> nat set \<Rightarrow> bool" where
  "traversal_invariant I frame =
     ((\<forall>s. I s \<longrightarrow> I (s\<lparr>nextId := Suc (nextId s)\<rparr>)) \<and>
      (\<forall>s n x r. I s \<and> n \<in> frame \<longrightarrow>
         I (s\<lparr>productionContext := (productionContext s)(oid r \<mapsto> n),
              cache := (cache s)((n, x) \<mapsto> r)\<rparr>)))"

text \<open>
  The invariant of a traversal over transformers whose outcome is a function of their
  input: every cached result of such a transformer has the outcome of its input.
\<close>

definition cache_consistent ::
  "(nat \<rightharpoonup> ('v \<Rightarrow> 'v outcome)) \<Rightarrow> ('v, 'k) state \<Rightarrow> bool" where
  "cache_consistent spec s =
     (\<forall>n x r g. cache s (n, x) = Some r \<and> spec n = Some g \<longrightarrow> outcome r = g x)"

section \<open>Capture sets\<close>

lemma Map_has_map_of: "Map_has k m = (map_of m k \<noteq> None)"
  by (simp add: Map_has_def map_of_eq_None_iff)

lemma map_of_Map_delete: "map_of (Map_delete k m) k' = (if k' = k then None else map_of m k')"
  by (induction m) (auto simp: Map_delete_def)

lemma map_of_Map_set_fresh: "\<not> Map_has k m \<Longrightarrow> map_of (Map_set k v m) k' = (if k' = k then Some v else map_of m k')"
  by (induction m) (auto simp: Map_set_def Map_has_def)

lemma set_Set_add: "set (Set_add x xs) = insert x (set xs)"
  by (auto simp: Set_add_def)

lemma set_fold_Set_add: "set (fold Set_add xs acc) = set xs \<union> set acc"
  by (induction xs arbitrary: acc) (auto simp: set_Set_add)

lemma distinct_fold_Set_add: "distinct acc \<Longrightarrow> distinct (fold Set_add xs acc)"
  by (induction xs arbitrary: acc) (auto simp: Set_add_def)

lemma get_add_same: "CaptureSet_get k (CaptureSet_add k c cs) =
   (if k \<in> set (overloadedKeys cs) then CaptureSet_get k cs else if CaptureSet_get k cs = None then Some c else None)"
  by (auto simp: CaptureSet_get_def CaptureSet_add_def Map_has_map_of map_of_Map_delete map_of_Map_set_fresh)

lemma get_add_other: "k' \<noteq> k \<Longrightarrow> CaptureSet_get k (CaptureSet_add k' c cs) = CaptureSet_get k cs"
  by (auto simp: CaptureSet_get_def CaptureSet_add_def Map_has_map_of map_of_Map_delete map_of_Map_set_fresh)

lemma overloaded_add: "set (overloadedKeys (CaptureSet_add k' c cs)) =
   (if k' \<notin> set (overloadedKeys cs) \<and> CaptureSet_get k' cs \<noteq> None then insert k' (set (overloadedKeys cs)) else set (overloadedKeys cs))"
  by (auto simp: CaptureSet_get_def CaptureSet_add_def Map_has_map_of set_Set_add)

lemma dead_add: "dead k cs \<Longrightarrow> dead k (CaptureSet_add k' c cs)"
  by (cases "k' = k") (auto simp: dead_def get_add_same get_add_other overloaded_add)

lemma dead_adds: "dead k cs \<Longrightarrow> dead k (fold (\<lambda>kv acc. CaptureSet_add (fst kv) (snd kv) acc) kvs cs)"
  by (induction kvs arbitrary: cs) (auto simp: dead_add)

lemma dead_merge_child: "dead k cs \<Longrightarrow> dead k (merge_child child cs)"
  unfolding merge_child_def
  by (rule dead_adds) (auto simp: dead_def set_fold_Set_add CaptureSet_get_def)

lemma dead_merge_children: "dead k cs \<Longrightarrow> dead k (fold merge_child children cs)"
  by (induction children arbitrary: cs) (auto simp: dead_merge_child)

lemma get_adds_absent: "k \<notin> fst ` set kvs \<Longrightarrow> CaptureSet_get k (fold (\<lambda>kv acc. CaptureSet_add (fst kv) (snd kv) acc) kvs cs) = CaptureSet_get k cs"
  by (induction kvs arbitrary: cs) (auto simp: get_add_other)

lemma overloaded_adds_mono: "k \<in> set (overloadedKeys cs) \<Longrightarrow> k \<in> set (overloadedKeys (fold (\<lambda>kv acc. CaptureSet_add (fst kv) (snd kv) acc) kvs cs))"
  by (induction kvs arbitrary: cs) (auto simp: overloaded_add)

lemma merge_child_undefined: "CaptureSet_get k child = None \<Longrightarrow> CaptureSet_get k (merge_child child cs) = CaptureSet_get k cs"
  unfolding merge_child_def
  by (subst get_adds_absent) (auto simp: CaptureSet_get_def map_of_eq_None_iff)

lemma merge_child_overloaded: "CaptureSet_get k cs = None \<Longrightarrow> k \<in> set (overloadedKeys child) \<Longrightarrow> dead k (merge_child child cs)"
  unfolding merge_child_def
  by (rule dead_adds) (auto simp: dead_def set_fold_Set_add CaptureSet_get_def)

lemma merge_before: "\<forall>b\<in>set before. CaptureSet_get k b = None \<Longrightarrow> CaptureSet_get k (fold merge_child before cs) = CaptureSet_get k cs"
  by (induction before arbitrary: cs) (auto simp: merge_child_undefined)

lemma new_overloaded_child:
  assumes "\<forall>b\<in>set before. CaptureSet_get k b = None" "k \<in> set (overloadedKeys child)"
  shows "dead k (CaptureSet_new (before @ child # rest))"
proof -
  have "CaptureSet_get k (fold merge_child before (CaptureSet [] [])) = None"
    using assms(1) by (simp add: merge_before) (simp add: CaptureSet_get_def)
  then have "dead k (merge_child child (fold merge_child before (CaptureSet [] [])))"
    using assms(2) by (rule merge_child_overloaded)
  then show ?thesis
    unfolding CaptureSet_new_def by (simp add: dead_merge_children)
qed

lemma claimed_twice_adds:
  "k \<in> fst ` set kvs \<Longrightarrow> k \<in> set (overloadedKeys cs) \<and> CaptureSet_get k cs = None \<or> k \<notin> set (overloadedKeys cs) \<and> CaptureSet_get k cs \<noteq> None \<Longrightarrow>
   dead k (fold (\<lambda>kv acc. CaptureSet_add (fst kv) (snd kv) acc) kvs cs)"
proof (induction kvs arbitrary: cs)
  case Nil
  then show ?case by simp
next
  case (Cons kv kvs)
  show ?case
  proof (cases "fst kv = k")
    case True
    have "dead k (CaptureSet_add k (snd kv) cs)"
      using Cons.prems(2) by (auto simp: dead_def get_add_same overloaded_add)
    then show ?thesis using True by (simp add: dead_adds)
  next
    case False
    then have "k \<in> fst ` set kvs" using Cons.prems(1) by auto
    moreover have "k \<in> set (overloadedKeys (CaptureSet_add (fst kv) (snd kv) cs)) \<and> CaptureSet_get k (CaptureSet_add (fst kv) (snd kv) cs) = None
       \<or> k \<notin> set (overloadedKeys (CaptureSet_add (fst kv) (snd kv) cs)) \<and> CaptureSet_get k (CaptureSet_add (fst kv) (snd kv) cs) \<noteq> None"
      using Cons.prems(2) False by (auto simp: get_add_other overloaded_add)
    ultimately show ?thesis using Cons.IH by simp
  qed
qed

lemma overloaded_adds_absent:
  "k \<notin> fst ` set kvs \<Longrightarrow>
   (k \<in> set (overloadedKeys (fold (\<lambda>kv acc. CaptureSet_add (fst kv) (snd kv) acc) kvs cs))) =
   (k \<in> set (overloadedKeys cs))"
  by (induction kvs arbitrary: cs) (auto simp: overloaded_add)

lemma claimed_once_adds:
  "k \<in> fst ` set kvs \<Longrightarrow> CaptureSet_get k cs = None \<Longrightarrow>
   (let r = fold (\<lambda>kv acc. CaptureSet_add (fst kv) (snd kv) acc) kvs cs in
    k \<in> set (overloadedKeys r) \<and> CaptureSet_get k r = None \<or> k \<notin> set (overloadedKeys r) \<and> CaptureSet_get k r \<noteq> None)"
proof (induction kvs arbitrary: cs)
  case Nil
  then show ?case by simp
next
  case (Cons kv kvs)
  show ?case
  proof (cases "fst kv = k")
    case True
    let ?cs = "CaptureSet_add k (snd kv) cs"
    have st: "k \<in> set (overloadedKeys ?cs) \<and> CaptureSet_get k ?cs = None \<or> k \<notin> set (overloadedKeys ?cs) \<and> CaptureSet_get k ?cs \<noteq> None"
      using Cons.prems(2) by (auto simp: get_add_same overloaded_add)
    show ?thesis
    proof (cases "k \<in> fst ` set kvs")
      case True
      from claimed_twice_adds[OF True st] \<open>fst kv = k\<close> show ?thesis by (simp add: dead_def)
    next
      case False
      then have "CaptureSet_get k (fold (\<lambda>kv acc. CaptureSet_add (fst kv) (snd kv) acc) kvs ?cs) = CaptureSet_get k ?cs"
        by (rule get_adds_absent)
      moreover have "k \<in> set (overloadedKeys (fold (\<lambda>kv acc. CaptureSet_add (fst kv) (snd kv) acc) kvs ?cs)) = (k \<in> set (overloadedKeys ?cs))"
        using False by (rule overloaded_adds_absent)
      ultimately show ?thesis using st \<open>fst kv = k\<close> by (simp add: Let_def)
    qed
  next
    case False
    then have "k \<in> fst ` set kvs" using Cons.prems(1) by auto
    moreover have "CaptureSet_get k (CaptureSet_add (fst kv) (snd kv) cs) = None"
      using False Cons.prems(2) by (simp add: get_add_other)
    ultimately show ?thesis using Cons.IH by simp
  qed
qed


lemma new_claimed_twice:
  assumes "CaptureSet_get k a \<noteq> None" "CaptureSet_get k b \<noteq> None" "k \<notin> set (overloadedKeys b)"
  shows "dead k (CaptureSet_new (a # b # rest))"
proof -
  let ?adds = "\<lambda>kvs cs. fold (\<lambda>kv acc. CaptureSet_add (fst kv) (snd kv) acc) kvs cs"
  let ?a0 = "CaptureSet (fold Set_add (overloadedKeys a) []) []"
  let ?A = "merge_child a (CaptureSet [] [])"
  have ka: "k \<in> fst ` set (definedKeys a)" and kb: "k \<in> fst ` set (definedKeys b)"
    using assms(1,2) by (auto simp: CaptureSet_get_def map_of_eq_None_iff)
  have "CaptureSet_get k ?a0 = None" by (simp add: CaptureSet_get_def)
  from claimed_once_adds[OF ka this]
  have A: "k \<in> set (overloadedKeys ?A) \<and> CaptureSet_get k ?A = None \<or> k \<notin> set (overloadedKeys ?A) \<and> CaptureSet_get k ?A \<noteq> None"
    by (simp add: merge_child_def Let_def)
  let ?b0 = "CaptureSet (fold Set_add (overloadedKeys b) (overloadedKeys ?A)) (definedKeys ?A)"
  have "k \<in> set (overloadedKeys ?b0) \<and> CaptureSet_get k ?b0 = None \<or> k \<notin> set (overloadedKeys ?b0) \<and> CaptureSet_get k ?b0 \<noteq> None"
    using A assms(3) by (simp add: set_fold_Set_add CaptureSet_get_def)
  from claimed_twice_adds[OF kb this]
  have "dead k (merge_child b ?A)" by (simp add: merge_child_def)
  then show ?thesis
    unfolding CaptureSet_new_def by (simp add: dead_merge_children)
qed

text \<open>
  Claim C4, as amended. A pair added for a key that is neither defined nor overloaded
  defines the key. A second claim for a key that is defined, with the identical capture
  or with another one, marks the key overloaded and removes its concrete mapping. A key
  that is overloaded and has no concrete mapping never resolves again, whatever pairs
  are added and whatever children are merged afterwards. In a set built from children,
  a key that is overloaded in one child and defined in no earlier child does not
  resolve, and neither does a key defined in the first two children (the second not
  overloading it).
\<close>

theorem CaptureSet_overloading:
  "(k \<notin> set (overloadedKeys cs) \<and> CaptureSet_get k cs = None \<longrightarrow>
      CaptureSet_get k (CaptureSet_add k c cs) = Some c)
 \<and> (k \<notin> set (overloadedKeys cs) \<and> CaptureSet_get k cs = Some c0 \<longrightarrow>
      CaptureSet_get k (CaptureSet_add k c cs) = None
    \<and> k \<in> set (overloadedKeys (CaptureSet_add k c cs)))
 \<and> (k \<in> set (overloadedKeys cs) \<and> CaptureSet_get k cs = None \<longrightarrow>
      CaptureSet_get k (fold (\<lambda>kv acc. CaptureSet_add (fst kv) (snd kv) acc) adds cs) = None
    \<and> CaptureSet_get k (fold merge_child children cs) = None)
 \<and> ((\<forall>b\<in>set before. CaptureSet_get k b = None) \<and> k \<in> set (overloadedKeys child) \<longrightarrow>
      CaptureSet_get k (CaptureSet_new (before @ child # rest)) = None)
 \<and> (CaptureSet_get k a \<noteq> None \<and> CaptureSet_get k b \<noteq> None \<and> k \<notin> set (overloadedKeys b) \<longrightarrow>
      CaptureSet_get k (CaptureSet_new (a # b # rest)) = None)"
proof (intro conjI impI)
  assume "k \<notin> set (overloadedKeys cs) \<and> CaptureSet_get k cs = None"
  then show "CaptureSet_get k (CaptureSet_add k c cs) = Some c"
    by (simp add: get_add_same)
next
  assume a: "k \<notin> set (overloadedKeys cs) \<and> CaptureSet_get k cs = Some c0"
  then show "CaptureSet_get k (CaptureSet_add k c cs) = None"
    by (simp add: get_add_same)
  from a show "k \<in> set (overloadedKeys (CaptureSet_add k c cs))"
    by (simp add: overloaded_add)
next
  assume "k \<in> set (overloadedKeys cs) \<and> CaptureSet_get k cs = None"
  then have d: "dead k cs" by (simp add: dead_def)
  from dead_adds[OF d, of adds]
  show "CaptureSet_get k (fold (\<lambda>kv acc. CaptureSet_add (fst kv) (snd kv) acc) adds cs) = None"
    by (simp add: dead_def)
  from dead_merge_children[OF d, of children]
  show "CaptureSet_get k (fold merge_child children cs) = None"
    by (simp add: dead_def)
next
  assume "(\<forall>b\<in>set before. CaptureSet_get k b = None) \<and> k \<in> set (overloadedKeys child)"
  then have "dead k (CaptureSet_new (before @ child # rest))"
    by (intro new_overloaded_child) simp_all
  then show "CaptureSet_get k (CaptureSet_new (before @ child # rest)) = None"
    by (simp add: dead_def)
next
  assume "CaptureSet_get k a \<noteq> None \<and> CaptureSet_get k b \<noteq> None \<and> k \<notin> set (overloadedKeys b)"
  then have "dead k (CaptureSet_new (a # b # rest))"
    by (intro new_claimed_twice) simp_all
  then show "CaptureSet_get k (CaptureSet_new (a # b # rest)) = None"
    by (simp add: dead_def)
qed

text \<open>The five parts of the statement above, each at a concrete capture set.\<close>

theorem CaptureSet_overloading_witness:
  "CaptureSet_get (7::nat) (CaptureSet_add 7 (Capture 2 (4::nat) (Valid 3 (4::nat) [] [] :: (nat, nat) ValidationResult)) (CaptureSet [] []))
     = Some (Capture 2 4 (Valid 3 4 [] []))
 \<and> CaptureSet_get (7::nat) (CaptureSet_add 7 (Capture 4 (5::nat) (Valid 5 (5::nat) [] [] :: (nat, nat) ValidationResult))
       (CaptureSet [] [(7, Capture 2 4 (Valid 3 4 [] []))])) = None
 \<and> CaptureSet_get (7::nat) (fold merge_child [CaptureSet [] [(7, Capture 4 (5::nat) (Valid 5 (5::nat) [] [] :: (nat, nat) ValidationResult))]]
       (CaptureSet [7] [])) = None
 \<and> CaptureSet_get (7::nat) (CaptureSet_new ([CaptureSet [] [(8, Capture 2 4 (Valid 3 4 [] []))]] @ CaptureSet [7] [] #
       [CaptureSet [] [(7, Capture 4 (5::nat) (Valid 5 (5::nat) [] [] :: (nat, nat) ValidationResult))]])) = None
 \<and> CaptureSet_get (7::nat) (CaptureSet_new (CaptureSet [] [(7, Capture 2 4 (Valid 3 4 [] []))] #
       CaptureSet [] [(7, Capture 4 (5::nat) (Valid 5 (5::nat) [] [] :: (nat, nat) ValidationResult))] # [])) = None"
proof -
  let ?c1 = "Capture 2 (4::nat) (Valid 3 (4::nat) [] [] :: (nat, nat) ValidationResult)"
  let ?c2 = "Capture 4 (5::nat) (Valid 5 (5::nat) [] [] :: (nat, nat) ValidationResult)"
  let ?e = "CaptureSet [] [] :: (nat, (nat, nat) Capture) CaptureSet"
  let ?d1 = "CaptureSet [] [(7::nat, ?c1)]"
  let ?d2 = "CaptureSet [] [(7::nat, ?c2)]"
  let ?o = "CaptureSet [7::nat] [] :: (nat, (nat, nat) Capture) CaptureSet"
  let ?x = "CaptureSet [] [(8::nat, ?c1)]"
  have 1: "CaptureSet_get (7::nat) (CaptureSet_add 7 ?c1 ?e) = Some ?c1"
    using CaptureSet_overloading[of 7 ?e ?c1 ?c1 "[]" "[]" "[?x]" ?o "[?d2]" ?d1 ?d2]
    by (simp add: CaptureSet_get_def)
  have 2: "CaptureSet_get (7::nat) (CaptureSet_add 7 ?c2 ?d1) = None"
    using CaptureSet_overloading[of 7 ?d1 ?c2 ?c1 "[]" "[]" "[?x]" ?o "[?d2]" ?d1 ?d2]
    by (simp add: CaptureSet_get_def)
  have 3: "CaptureSet_get (7::nat) (fold merge_child [?d2] ?o) = None
         \<and> CaptureSet_get (7::nat) (CaptureSet_new ([?x] @ ?o # [?d2])) = None"
    using CaptureSet_overloading[of 7 ?o ?c2 ?c1 "[]" "[?d2]" "[?x]" ?o "[?d2]" ?d1 ?d2]
    by (simp add: CaptureSet_get_def)
  have 4: "CaptureSet_get (7::nat) (CaptureSet_new (?d1 # ?d2 # [])) = None"
    using CaptureSet_overloading[of 7 ?o ?c2 ?c1 "[]" "[?d2]" "[?x]" ?o "[]" ?d1 ?d2]
    by (simp add: CaptureSet_get_def)
  from 1 2 3 4 show ?thesis by blast
qed

text \<open>
  Claim C4 as stated fails: \<^verbatim>\<open>add\<close> is not idempotent. The identical capture offered again
  for a key with no differing claim marks the key overloaded and removes its mapping.
\<close>

theorem add_identical_capture_overloads:
  "CaptureSet_add (7::nat) (Capture 2 (4::nat) (Valid 3 (4::nat) [] [] :: (nat, nat) ValidationResult))
     (CaptureSet_add 7 (Capture 2 4 (Valid 3 4 [] [])) (CaptureSet_new []))
   \<noteq> CaptureSet_add 7 (Capture 2 4 (Valid 3 4 [] [])) (CaptureSet_new [])
 \<and> CaptureSet_get 7 (CaptureSet_add (7::nat) (Capture 2 (4::nat) (Valid 3 (4::nat) [] [] :: (nat, nat) ValidationResult))
     (CaptureSet_add 7 (Capture 2 4 (Valid 3 4 [] [])) (CaptureSet_new []))) = None"
  by (simp add: CaptureSet_new_def CaptureSet_add_def CaptureSet_get_def Map_has_def Map_set_def Map_delete_def Set_add_def)

text \<open>
  The constructor adds the overloaded keys of a child when it reaches that child
  (line 38), after the pairs of the earlier children: a key defined by an earlier child
  and overloaded in a later one ends in both \<open>overloadedKeys\<close> and \<open>definedKeys\<close>, and
  \<^verbatim>\<open>get\<close> still resolves it.
\<close>

lemma overloaded_child_after_definition:
  "CaptureSet_new [CaptureSet [] [(k, c)], CaptureSet [k] []] = CaptureSet [k] [(k, c)]
 \<and> CaptureSet_get k (CaptureSet_new [CaptureSet [] [(k, c)], CaptureSet [k] []]) = Some c"
  by (simp add: CaptureSet_new_def merge_child_def CaptureSet_add_def CaptureSet_get_def Map_has_def Map_set_def Set_add_def)

section \<open>The cross product of capture sets\<close>

text \<open>
  Claim C7. \<^verbatim>\<open>crossProductCaptures\<close> throws when it is given no list, and returns the
  only list unchanged when it is given one.
\<close>

theorem crossProductCaptures_zero_one:
  "crossProductCaptures ([] :: ('k, 'c) CaptureSet list list) =
     Inl (Error ''cross product is undefined when no CaptureSet arrays are provided'')
 \<and> crossProductCaptures [only] = Inr only"
  by simp

lemma crossProductCaptures_returns: "cps \<noteq> [] \<Longrightarrow> \<exists>r. crossProductCaptures cps = Inr r"
  by (induction cps rule: crossProductCaptures.induct) (auto split: sum.splits)

lemma crossProductCaptures_last_empty:
  "cps \<noteq> [] \<Longrightarrow> last cps = [] \<Longrightarrow> crossProductCaptures cps = Inr []"
  by (induction cps rule: crossProductCaptures.induct) (auto split: sum.splits simp: flatMap_def)

text \<open>
  Claim C10. With at least two lists of which the first is empty, the result is the
  cross product of the remaining lists; when only the last list is empty, and the lists
  before it are not, the product is empty.
\<close>

theorem crossProductCaptures_empty_sibling:
  "(rest \<noteq> [] \<longrightarrow> crossProductCaptures ([] # rest) = crossProductCaptures rest)
 \<and> (front \<noteq> [] \<and> (\<forall>foos\<in>set front. foos \<noteq> []) \<longrightarrow> crossProductCaptures (front @ [[]]) = Inr [])"
proof (intro conjI impI)
  assume "rest \<noteq> []"
  then show "crossProductCaptures ([] # rest) = crossProductCaptures rest"
    by (cases rest) (auto split: sum.splits)
next
  assume "front \<noteq> [] \<and> (\<forall>foos\<in>set front. foos \<noteq> [])"
  show "crossProductCaptures (front @ [[]]) = Inr []"
    by (rule crossProductCaptures_last_empty) simp_all
qed

theorem crossProductCaptures_empty_sibling_witness:
  "crossProductCaptures ([] # [[CaptureSet [] [(7::nat, ''a'')]], [CaptureSet [] [(8, ''b'')]]])
     = Inr [CaptureSet [] [(7, ''a''), (8, ''b'')]]
 \<and> crossProductCaptures ([[CaptureSet [] [(7::nat, ''a'')]], [CaptureSet [] [(8, ''b'')]]] @ [[]]) = Inr []"
  using crossProductCaptures_empty_sibling[of "[[CaptureSet [] [(7::nat, ''a'')]], [CaptureSet [] [(8, ''b'')]]]"
          "[[CaptureSet [] [(7::nat, ''a'')]], [CaptureSet [] [(8, ''b'')]]]"]
  by (simp add: flatMap_def CaptureSet_new_def merge_child_def CaptureSet_add_def Map_has_def Map_set_def)

section \<open>Canonical captures\<close>

lemma set_Set_of: "set (Set_of xs) = set xs"
  by (simp add: Set_of_def set_fold_Set_add)

lemma distinct_Set_of: "distinct (Set_of xs)"
  by (simp add: Set_of_def distinct_fold_Set_add)

lemma length_Set_of_one: "(length (Set_of xs) = 1) = (\<exists>x. set xs = {x})"
proof
  assume "length (Set_of xs) = 1"
  then obtain x where "Set_of xs = [x]" by (cases "Set_of xs") auto
  then have "set (Set_of xs) = {x}" by simp
  then show "\<exists>x. set xs = {x}" by (auto simp: set_Set_of)
next
  assume "\<exists>x. set xs = {x}"
  then obtain x where x: "set (Set_of xs) = {x}" by (auto simp: set_Set_of)
  have "card (set (Set_of xs)) = length (Set_of xs)"
    by (rule distinct_card) (rule distinct_Set_of)
  with x show "length (Set_of xs) = 1" by simp
qed

lemma getCanonical_Some:
  "(getCanonical r k = Some c) = (set (filter just (get r k)) = {Some c})"
proof -
  let ?raw = "Set_of (filter just (get r k))"
  show ?thesis
  proof (cases "length ?raw = 1")
    case True
    then obtain x where x: "?raw = [x]" by (cases ?raw) auto
    then have "set ?raw = {x}" by simp
    then have sx: "set (filter just (get r k)) = {x}" by (simp add: set_Set_of)
    from x True have "getCanonical r k = x" by (simp add: getCanonical_def Let_def)
    with sx show ?thesis by auto
  next
    case False
    then have "getCanonical r k = None" by (simp add: getCanonical_def Let_def)
    moreover from False have "set (filter just (get r k)) \<noteq> {Some c}"
      unfolding length_Set_of_one by blast
    ultimately show ?thesis by simp
  qed
qed

lemma filter_just_set: "set (filter just xs) = {Some c} = (Some c \<in> set xs \<and> (\<forall>c'. Some c' \<in> set xs \<longrightarrow> c' = c))"
  by (auto simp: just_def)

lemma getCanonical_None:
  "(getCanonical r k = None) = (\<not> (\<exists>c. Some c \<in> set (get r k) \<and> (\<forall>c'. Some c' \<in> set (get r k) \<longrightarrow> c' = c)))"
proof -
  have "(getCanonical r k = None) = (\<forall>c. getCanonical r k \<noteq> Some c)" by auto
  then show ?thesis unfolding getCanonical_Some filter_just_set by blast
qed

lemma get_worlds: "captures_field r = Some worlds \<Longrightarrow> get r k = map (CaptureSet_get k) worlds"
  by (cases r) auto

lemma merged_twice: "CaptureSet_get k (CaptureSet_new [CaptureSet_add k c1 (CaptureSet_new []), CaptureSet_add k c2 (CaptureSet_new [])]) = None"
  by (simp add: CaptureSet_new_def merge_child_def CaptureSet_add_def Map_has_def Map_set_def Set_add_def CaptureSet_get_def Map_delete_def)

text \<open>
  Claim C6. \<^verbatim>\<open>getCanonical\<close> returns a capture exactly when the lookups of the key in the
  capture sets of the result that are not \<^verbatim>\<open>undefined\<close> hold one distinct capture, and
  \<^verbatim>\<open>undefined\<close> otherwise. In particular, when the singleton sets of two captures of one
  key (as \<^verbatim>\<open>capture\<close> builds them) are merged by the cross product, the canonical
  capture is \<^verbatim>\<open>undefined\<close>; when every capture set of the result resolves the key to
  one and the same capture, that capture is the canonical one.
\<close>

theorem getCanonical_unique: 
  "((getCanonical r k = Some c) = (Some c \<in> set (get r k) \<and> (\<forall>c'. Some c' \<in> set (get r k) \<longrightarrow> c' = c)))
 \<and> ((getCanonical r k = None) = (\<not> (\<exists>c. Some c \<in> set (get r k) \<and> (\<forall>c'. Some c' \<in> set (get r k) \<longrightarrow> c' = c))))
 \<and> (captures_field r = Some worlds \<and> crossProductCaptures [[CaptureSet_add k c1 (CaptureSet_new [])], [CaptureSet_add k c2 (CaptureSet_new [])]] = Inr worlds \<longrightarrow> getCanonical r k = None)
 \<and> (captures_field r = Some worlds \<and> worlds \<noteq> [] \<and> (\<forall>w\<in>set worlds. CaptureSet_get k w = Some c) \<longrightarrow> getCanonical r k = Some c)"
proof (intro conjI impI)
  show "(getCanonical r k = Some c) = (Some c \<in> set (get r k) \<and> (\<forall>c'. Some c' \<in> set (get r k) \<longrightarrow> c' = c))"
    unfolding getCanonical_Some filter_just_set ..
  show "(getCanonical r k = None) = (\<not> (\<exists>c. Some c \<in> set (get r k) \<and> (\<forall>c'. Some c' \<in> set (get r k) \<longrightarrow> c' = c)))"
    by (rule getCanonical_None)
next
  assume a: "captures_field r = Some worlds \<and> crossProductCaptures [[CaptureSet_add k c1 (CaptureSet_new [])], [CaptureSet_add k c2 (CaptureSet_new [])]] = Inr worlds"
  then have "worlds = [CaptureSet_new [CaptureSet_add k c1 (CaptureSet_new []), CaptureSet_add k c2 (CaptureSet_new [])]]"
    by (simp add: flatMap_def)
  with a have "get r k = [None]"
    by (simp add: get_worlds merged_twice)
  then show "getCanonical r k = None"
    by (simp add: getCanonical_None)
next
  assume a: "captures_field r = Some worlds \<and> worlds \<noteq> [] \<and> (\<forall>w\<in>set worlds. CaptureSet_get k w = Some c)"
  then have "set (get r k) = {Some c}"
    by (cases worlds) (auto simp: get_worlds)
  then have "Some c \<in> set (get r k) \<and> (\<forall>c'. Some c' \<in> set (get r k) \<longrightarrow> c' = c)"
    by simp
  then show "getCanonical r k = Some c"
    by (simp only: getCanonical_Some filter_just_set) simp
qed

text \<open>Both particular cases, at concrete results.\<close>

theorem getCanonical_unique_witness:
  "getCanonical (Valid 2 (4::nat) []
       [CaptureSet [] [(7::nat, Capture 3 4 (Valid 2 4 [] []))],
        CaptureSet [] [(8, Capture 5 6 (Valid 6 6 [] [])), (7, Capture 3 4 (Valid 2 4 [] []))]]) 7
     = Some (Capture 3 4 (Valid 2 4 [] []))
 \<and> getCanonical (Valid 2 (4::nat) [] [CaptureSet [7::nat] []]) 7 = None"
proof -
  let ?c1 = "Capture 3 (4::nat) (Valid 2 (4::nat) [] [] :: (nat, nat) ValidationResult)"
  let ?c2 = "Capture 5 (6::nat) (Valid 6 (6::nat) [] [] :: (nat, nat) ValidationResult)"
  let ?w = "[CaptureSet [] [(7::nat, ?c1)], CaptureSet [] [(8, ?c2), (7, ?c1)]]"
  have 1: "getCanonical (Valid 2 (4::nat) [] ?w) 7 = Some ?c1"
    using getCanonical_unique[of "Valid 2 (4::nat) [] ?w" 7 ?c1 ?w ?c1 ?c2]
    by (simp add: CaptureSet_get_def)
  have 2: "getCanonical (Valid 2 (4::nat) [] [CaptureSet [7::nat] []]) 7 = None"
    using getCanonical_unique[of "Valid 2 (4::nat) [] [CaptureSet [7::nat] []]" 7 ?c1 "[CaptureSet [7::nat] []]" ?c1 ?c2]
    by (simp add: flatMap_def CaptureSet_new_def merge_child_def CaptureSet_add_def
          Map_has_def Map_set_def Map_delete_def Set_add_def)
  from 1 2 show ?thesis by simp
qed

section \<open>Sequencing with bind\<close>

lemma cp_two: "\<exists>crossed. crossProductCaptures [xs, ys] = Inr crossed"
  by simp

text \<open>
  Claim C2. On a \<^verbatim>\<open>Failure\<close>, \<^verbatim>\<open>bind\<close> returns the very same result and leaves the state
  as it is, whatever the continuation (it is not called). Otherwise, when the
  continuation returns \<open>next\<close> for the value of the result: the warnings are those of
  the result followed by those of \<open>next\<close>, and so are the errors; if \<open>next\<close> is a
  \<^verbatim>\<open>Failure\<close> the outcome is a new \<^verbatim>\<open>Failure\<close> with these errors and warnings; otherwise it
  is a new \<^verbatim>\<open>Invalid\<close> when there are errors and a new \<^verbatim>\<open>Valid\<close> when there are none, with
  the value of \<open>next\<close> and the cross product of the two capture lists.
\<close>

theorem bind_sequencing:
  "(isFailure r \<longrightarrow> (\<forall>g. bind r g s = (Inr r, s)))
 \<and> (\<not> isFailure r \<and> f (the_value r) s = (Inr next, s1) \<longrightarrow>
      (isFailure next \<longrightarrow>
         bind r f s =
           (Inr (Failure (nextId s1) (errors_or_empty r @ errors_or_empty next)
                   (warnings r @ warnings next)),
            s1\<lparr>nextId := Suc (nextId s1)\<rparr>))
    \<and> (\<not> isFailure next \<longrightarrow>
         (\<exists>crossed. crossProductCaptures [captures r, captures next] = Inr crossed
            \<and> bind r f s =
                (Inr (if errors_or_empty r @ errors_or_empty next \<noteq> []
                      then Invalid (nextId s1) (the_value next)
                             (errors_or_empty r @ errors_or_empty next)
                             (warnings r @ warnings next) crossed
                      else Valid (nextId s1) (the_value next)
                             (warnings r @ warnings next) crossed),
                 s1\<lparr>nextId := Suc (nextId s1)\<rparr>))))"
proof (intro conjI impI allI)
  fix g assume "isFailure r"
  then show "bind r g s = (Inr r, s)" by (simp add: bind_def)
next
  assume a: "\<not> isFailure r \<and> f (the_value r) s = (Inr next, s1)" and n: "isFailure next"
  then show "bind r f s =
           (Inr (Failure (nextId s1) (errors_or_empty r @ errors_or_empty next)
                   (warnings r @ warnings next)),
            s1\<lparr>nextId := Suc (nextId s1)\<rparr>)"
    by (simp add: bind_def Let_def ok_def failure_def with_default_def)
next
  assume a: "\<not> isFailure r \<and> f (the_value r) s = (Inr next, s1)" and n: "\<not> isFailure next"
  obtain crossed where c: "crossProductCaptures [captures r, captures next] = Inr crossed"
    using cp_two by blast
  have "bind r f s =
                (Inr (if errors_or_empty r @ errors_or_empty next \<noteq> []
                      then Invalid (nextId s1) (the_value next)
                             (errors_or_empty r @ errors_or_empty next)
                             (warnings r @ warnings next) crossed
                      else Valid (nextId s1) (the_value next)
                             (warnings r @ warnings next) crossed),
                 s1\<lparr>nextId := Suc (nextId s1)\<rparr>)"
    using a n c
    by (simp add: bind_def Let_def ok_def invalid_def valid_def with_default_def del: crossProductCaptures.simps)
  with c show "\<exists>crossed. crossProductCaptures [captures r, captures next] = Inr crossed
            \<and> bind r f s =
                (Inr (if errors_or_empty r @ errors_or_empty next \<noteq> []
                      then Invalid (nextId s1) (the_value next)
                             (errors_or_empty r @ errors_or_empty next)
                             (warnings r @ warnings next) crossed
                      else Valid (nextId s1) (the_value next)
                             (warnings r @ warnings next) crossed),
                 s1\<lparr>nextId := Suc (nextId s1)\<rparr>)" by blast
qed

text \<open>The four branches of \<^verbatim>\<open>bind\<close>, each run on a concrete result.\<close>

theorem bind_sequencing_witness:
  "bind (Failure 9 [''e''] [] :: (nat, nat) ValidationResult)
       (\<lambda>v. ok (valid v None None))
       \<lparr>nextId = 10, productionContext = Map.empty, cache = Map.empty\<rparr>
     = (Inr (Failure 9 [''e''] []),
        \<lparr>nextId = 10, productionContext = Map.empty, cache = Map.empty\<rparr>)
 \<and> bind (Invalid 3 (4::nat) [''e1''] [''w1''] [CaptureSet [] []] :: (nat, nat) ValidationResult)
       (\<lambda>v. ok (failure (Str ''e2'') (Some (Str ''w2''))))
       \<lparr>nextId = 10, productionContext = Map.empty, cache = Map.empty\<rparr>
     = (Inr (Failure 11 [''e1'', ''e2''] [''w1'', ''w2'']),
        \<lparr>nextId = 12, productionContext = Map.empty, cache = Map.empty\<rparr>)
 \<and> bind (Invalid 3 (4::nat) [''e1''] [''w1''] [CaptureSet [] []] :: (nat, nat) ValidationResult)
       (\<lambda>v. ok (valid (v * 10) (Some (Str ''w2'')) None))
       \<lparr>nextId = 10, productionContext = Map.empty, cache = Map.empty\<rparr>
     = (Inr (Invalid 11 40 [''e1''] [''w1'', ''w2''] [CaptureSet [] []]),
        \<lparr>nextId = 12, productionContext = Map.empty, cache = Map.empty\<rparr>)
 \<and> bind (Valid 3 (4::nat) [''w1''] [CaptureSet [] []] :: (nat, nat) ValidationResult)
       (\<lambda>v. ok (valid (v * 10) (Some (Str ''w2'')) None))
       \<lparr>nextId = 10, productionContext = Map.empty, cache = Map.empty\<rparr>
     = (Inr (Valid 11 40 [''w1'', ''w2''] [CaptureSet [] []]),
        \<lparr>nextId = 12, productionContext = Map.empty, cache = Map.empty\<rparr>)"
proof -
  let ?s = "\<lparr>nextId = 10, productionContext = Map.empty, cache = Map.empty\<rparr> :: (nat, nat) state"
  let ?s1 = "\<lparr>nextId = 11, productionContext = Map.empty, cache = Map.empty\<rparr> :: (nat, nat) state"
  let ?inv = "Invalid 3 (4::nat) [''e1''] [''w1''] [CaptureSet [] []] :: (nat, nat) ValidationResult"
  let ?val = "Valid 3 (4::nat) [''w1''] [CaptureSet [] []] :: (nat, nat) ValidationResult"
  let ?f1 = "\<lambda>v::nat. ok (valid v None None) :: ((nat, nat) ValidationResult, nat, nat) comp"
  let ?f2 = "\<lambda>v::nat. ok (failure (Str ''e2'') (Some (Str ''w2''))) :: ((nat, nat) ValidationResult, nat, nat) comp"
  let ?f3 = "\<lambda>v::nat. ok (valid (v * 10) (Some (Str ''w2'')) None) :: ((nat, nat) ValidationResult, nat, nat) comp"
  let ?cs = "[CaptureSet [] []] :: (nat, (nat, nat) Capture) CaptureSet list"
  have 1: "bind (Failure 9 [''e''] []) ?f1 ?s = (Inr (Failure 9 [''e''] []), ?s)"
    using bind_sequencing[of "Failure 9 [''e''] []" ?s ?f1 "Failure 9 [''e''] []" ?s]
    by simp
  have 2: "bind ?inv ?f2 ?s = (Inr (Failure 11 [''e1'', ''e2''] [''w1'', ''w2'']),
             \<lparr>nextId = 12, productionContext = Map.empty, cache = Map.empty\<rparr>)"
    using bind_sequencing[of ?inv ?s ?f2 "Failure 10 [''e2''] [''w2'']" ?s1]
    by (simp add: ok_def failure_def with_default_def errors_or_empty_def)
  have 3: "bind ?inv ?f3 ?s = (Inr (Invalid 11 40 [''e1''] [''w1'', ''w2''] ?cs),
             \<lparr>nextId = 12, productionContext = Map.empty, cache = Map.empty\<rparr>)"
    using bind_sequencing[of ?inv ?s ?f3 "Valid 10 40 [''w2''] [CaptureSet_new []]" ?s1]
    by (simp add: ok_def valid_def with_default_def errors_or_empty_def flatMap_def
          CaptureSet_new_def merge_child_def)
  have 4: "bind ?val ?f3 ?s = (Inr (Valid 11 40 [''w1'', ''w2''] ?cs),
             \<lparr>nextId = 12, productionContext = Map.empty, cache = Map.empty\<rparr>)"
    using bind_sequencing[of ?val ?s ?f3 "Valid 10 40 [''w2''] [CaptureSet_new []]" ?s1]
    by (simp add: ok_def valid_def with_default_def errors_or_empty_def flatMap_def
          CaptureSet_new_def merge_child_def)
  from 1 2 3 4 show ?thesis by simp
qed

section \<open>The three kinds of result\<close>

lemma bind_kinds:
  assumes "bind r f s = (Inr r', s')"
  shows "r' = r \<and> isFailure r \<or> isFailure r' \<or> isValid r' \<or> (isInvalid r' \<and> errors r' \<noteq> [])"
proof (cases "isFailure r")
  case True
  with assms show ?thesis by (simp add: bind_def)
next
  case False
  obtain x s1 where f: "f (the_value r) s = (x, s1)" by (cases "f (the_value r) s")
  show ?thesis
  proof (cases x)
    case (Inl e)
    with assms False f show ?thesis by (simp add: bind_def)
  next
    case (Inr nxt)
    with assms False f show ?thesis
      by (auto simp: bind_def Let_def ok_def failure_def invalid_def valid_def with_default_def split: if_splits)
  qed
qed

lemma bind_invalid: "bind r f s = (Inr r', s') \<Longrightarrow> isInvalid r' \<Longrightarrow> errors r' \<noteq> []"
  using bind_kinds[of r f s r' s'] by (cases r'; cases r) auto

lemma mergeResults_invalid:
  assumes "mergeResults rs m s = (Inr r', s')" "isInvalid r'"
  shows "errors r' \<noteq> []"
proof -
  let ?acc = "merge_loop (productionContext s) rs ([], [])"
  obtain cp where cp: "crossProductCaptures (map snd (snd ?acc)) = cp" by simp
  show ?thesis
  proof (cases cp)
    case (Inl e)
    with assms cp show ?thesis by (simp add: mergeResults_def Let_def)
  next
    case (Inr caps)
    show ?thesis
    proof (cases "length (fst ?acc) = length rs")
      case False
      with assms cp Inr show ?thesis
        by (auto simp: mergeResults_def Let_def ok_def failure_def)
    next
      case True
      obtain x s1 where m: "m (fst ?acc) s = (x, s1)" by (cases "m (fst ?acc) s")
      show ?thesis
      proof (cases x)
        case (Inl e)
        with assms cp Inr True m show ?thesis by (simp add: mergeResults_def Let_def)
      next
        case v: (Inr v)
        with assms(1) cp Inr True m
        consider "isFailure v" "isFailure r'"
          | f where "bind v f s1 = (Inr r', s')"
          by (auto simp: mergeResults_def Let_def ok_def failure_def split: if_splits)
        then show ?thesis
        proof cases
          case 1
          with assms(2) show ?thesis by (cases r') auto
        next
          case 2
          then show ?thesis using assms(2) by (rule bind_invalid)
        qed
      qed
    qed
  qed
qed

text \<open>
  Claim C1, as amended. A \<^verbatim>\<open>Failure\<close> has no value and no captures, an \<^verbatim>\<open>Invalid\<close> has
  a value, a \<^verbatim>\<open>Valid\<close> has no errors. \<^verbatim>\<open>valid\<close>, \<^verbatim>\<open>invalid\<close> and \<^verbatim>\<open>failure\<close> build a
  result of their own kind for every choice of their arguments; the errors of the
  \<^verbatim>\<open>Invalid\<close> that \<^verbatim>\<open>invalid\<close> builds are the errors it was given (none when the argument is
  omitted or empty). An \<^verbatim>\<open>Invalid\<close> returned by \<^verbatim>\<open>bind\<close> or by \<^verbatim>\<open>mergeResults\<close> has at
  least one error.
\<close>

theorem result_invariants:
  "(isFailure r \<longrightarrow> value_field r = None \<and> captures_field r = None)
 \<and> (isInvalid r \<longrightarrow> value_field r \<noteq> None)
 \<and> (isValid r \<longrightarrow> errors_field r = None)
 \<and> isValid (fst (valid v ws cs s))
 \<and> isFailure (fst (failure fes ws s))
 \<and> isInvalid (fst (invalid v es ws cs s))
 \<and> errors_field (fst (invalid v es ws cs s)) = Some (as_array (with_default es (Strs [])))
 \<and> (bind r f s = (Inr r', s') \<and> isInvalid r' \<longrightarrow> errors r' \<noteq> [])
 \<and> (mergeResults rs m s = (Inr r', s') \<and> isInvalid r' \<longrightarrow> errors r' \<noteq> [])"
proof (intro conjI impI)
  show "isFailure r \<Longrightarrow> value_field r = None" by (cases r) auto
  show "isFailure r \<Longrightarrow> captures_field r = None" by (cases r) auto
  show "isInvalid r \<Longrightarrow> value_field r \<noteq> None" by (cases r) auto
  show "isValid r \<Longrightarrow> errors_field r = None" by (cases r) auto
  show "isValid (fst (valid v ws cs s))" by (simp add: valid_def)
  show "isFailure (fst (failure fes ws s))" by (simp add: failure_def)
  show "isInvalid (fst (invalid v es ws cs s))" by (simp add: invalid_def)
  show "errors_field (fst (invalid v es ws cs s)) = Some (as_array (with_default es (Strs [])))"
    by (simp add: invalid_def)
  show "bind r f s = (Inr r', s') \<and> isInvalid r' \<Longrightarrow> errors r' \<noteq> []"
    using bind_invalid by blast
  show "mergeResults rs m s = (Inr r', s') \<and> isInvalid r' \<Longrightarrow> errors r' \<noteq> []"
    using mergeResults_invalid by blast
qed

text \<open>The parts of the statement at concrete results, the last two as \<^verbatim>\<open>bind\<close> and \<^verbatim>\<open>mergeResults\<close> return them.\<close>

theorem result_invariants_witness:
  "value_field (Failure 2 [''e''] [] :: (nat, nat) ValidationResult) = None
 \<and> captures_field (Failure 2 [''e''] [] :: (nat, nat) ValidationResult) = None
 \<and> value_field (Invalid 2 (4::nat) [''e''] [] [] :: (nat, nat) ValidationResult) \<noteq> None
 \<and> errors_field (Valid 2 (4::nat) [] [] :: (nat, nat) ValidationResult) = None
 \<and> errors_field (fst (invalid (4::nat) (Some (Str ''e'')) None None
       (\<lparr>nextId = 10, productionContext = Map.empty, cache = Map.empty\<rparr> :: (nat, nat) state)))
     = Some [''e'']
 \<and> errors (Invalid 11 4 [''e''] [] [CaptureSet [] []] :: (nat, nat) ValidationResult) \<noteq> []
 \<and> errors (Invalid 12 1 [''e''] [] [CaptureSet [] []] :: (nat, nat) ValidationResult) \<noteq> []"
proof -
  let ?s = "\<lparr>nextId = 10, productionContext = Map.empty, cache = Map.empty\<rparr> :: (nat, nat) state"
  let ?f = "\<lambda>v::nat. ok (invalid v (Some (Str ''e'')) None None) :: ((nat, nat) ValidationResult, nat, nat) comp"
  let ?m = "\<lambda>vs::nat list. ok (valid (length vs) None None) :: ((nat, nat) ValidationResult, nat, nat) comp"
  let ?fl = "Failure 2 [''e''] [] :: (nat, nat) ValidationResult"
  let ?iv = "Invalid 2 (4::nat) [''e''] [] [CaptureSet [] []] :: (nat, nat) ValidationResult"
  let ?vl = "Valid 2 (4::nat) [] [CaptureSet [] []] :: (nat, nat) ValidationResult"
  let ?b = "Invalid 11 4 [''e''] [] [CaptureSet [] []] :: (nat, nat) ValidationResult"
  let ?mr = "Invalid 12 1 [''e''] [] [CaptureSet [] []] :: (nat, nat) ValidationResult"
  let ?s12 = "\<lparr>nextId = 12, productionContext = Map.empty, cache = Map.empty\<rparr> :: (nat, nat) state"
  let ?s13 = "\<lparr>nextId = 13, productionContext = Map.empty, cache = Map.empty\<rparr> :: (nat, nat) state"
  have b: "bind ?vl ?f ?s = (Inr ?b, ?s12)"
    by (simp add: bind_def ok_def invalid_def with_default_def errors_or_empty_def flatMap_def
          CaptureSet_new_def merge_child_def)
  have m: "mergeResults [?iv] ?m ?s = (Inr ?mr, ?s13)"
    by (simp add: mergeResults_def bind_def ok_def invalid_def valid_def with_default_def
          errors_or_empty_def flatMap_def CaptureSet_new_def merge_child_def MultiMap_add_def
          Map_has_def)
  have 1: "value_field ?fl = None \<and> captures_field ?fl = None"
    using result_invariants[of ?fl 4 None None ?s "Str ''e''" "Some (Str ''e'')" ?f ?b ?s12 "[?iv]" ?m]
    by simp
  have 2: "value_field (Invalid 2 (4::nat) [''e''] [] [] :: (nat, nat) ValidationResult) \<noteq> None"
    using result_invariants[of "Invalid 2 (4::nat) [''e''] [] []" 4 None None ?s "Str ''e''" "Some (Str ''e'')" ?f ?b ?s12 "[?iv]" ?m]
    by simp
  have 3: "errors_field (Valid 2 (4::nat) [] [] :: (nat, nat) ValidationResult) = None"
    using result_invariants[of "Valid 2 (4::nat) [] []" 4 None None ?s "Str ''e''" "Some (Str ''e'')" ?f ?b ?s12 "[?iv]" ?m]
    by simp
  have 4: "errors_field (fst (invalid (4::nat) (Some (Str ''e'')) None None ?s)) = Some [''e'']"
    using result_invariants[of ?vl 4 None None ?s "Str ''e''" "Some (Str ''e'')" ?f ?b ?s12 "[?iv]" ?m]
    by (simp add: with_default_def)
  have 5: "errors ?b \<noteq> []"
    using result_invariants[of ?vl 4 None None ?s "Str ''e''" "Some (Str ''e'')" ?f ?b ?s12 "[?iv]" ?m] b
    by simp
  have 6: "errors ?mr \<noteq> []"
    using result_invariants[of ?vl 4 None None ?s "Str ''e''" "Some (Str ''e'')" ?f ?mr ?s13 "[?iv]" ?m] m
    by simp
  from 1 2 3 4 5 6 show ?thesis by simp
qed

text \<open>
  Claim C1 as stated fails for the exported constructor \<^verbatim>\<open>invalid\<close>: called with its
  errors omitted (the default of line 189) or empty, it builds an \<^verbatim>\<open>Invalid\<close> with no
  error.
\<close>

theorem invalid_without_errors:
  "isInvalid (fst (invalid (4::nat) None None None
       (\<lparr>nextId = 10, productionContext = Map.empty, cache = Map.empty\<rparr> :: (nat, nat) state)))
 \<and> errors_field (fst (invalid (4::nat) None None None
       (\<lparr>nextId = 10, productionContext = Map.empty, cache = Map.empty\<rparr> :: (nat, nat) state)))
     = Some []
 \<and> errors (fst (invalid (4::nat) (Some (Strs [])) None None
       (\<lparr>nextId = 10, productionContext = Map.empty, cache = Map.empty\<rparr> :: (nat, nat) state)))
     = []"
  by (simp add: invalid_def with_default_def)

section \<open>Merging results\<close>

text \<open>
  Claim C3: \<^verbatim>\<open>mergeResults\<close> accumulates the warnings and the errors of every result
  of the sequence, and when some result is a \<^verbatim>\<open>Failure\<close> it returns a \<^verbatim>\<open>Failure\<close> with
  these errors and warnings, without calling the mapping. The code does not do so when
  the first result of the sequence is a \<^verbatim>\<open>Failure\<close>: the loop stops before it has added
  a list to \<^verbatim>\<open>allCaptures\<close>, \<^verbatim>\<open>crossProductCaptures\<close> is called with no list (line 277)
  and throws, before the \<^verbatim>\<open>Failure\<close> of line 292 is built.
\<close>

theorem mergeResults_leading_failure_throws: "mergeResults (Failure n es ws # rest) mapping s =
   (Inl (Error ''cross product is undefined when no CaptureSet arrays are provided''), s)"
  by (simp add: mergeResults_def)

text \<open>
  When the first \<^verbatim>\<open>Failure\<close> comes after a result of another kind, \<^verbatim>\<open>mergeResults\<close> does
  what the claim says: it returns a \<^verbatim>\<open>Failure\<close> with the errors and the warnings of every
  result of the sequence, those after the first \<^verbatim>\<open>Failure\<close> included, whatever the
  mapping (it is not called).
\<close>

lemma MultiMap_add_nonempty: "MultiMap_add key vals m \<noteq> []"
  by (auto simp: MultiMap_add_def Map_has_def)

lemma merge_loop_values:
  "length (fst (merge_loop pc rs acc)) = length (fst acc) + length (takeWhile (\<lambda>r. \<not> isFailure r) rs)"
  by (induction rs arbitrary: acc) auto

lemma merge_loop_groups: "snd acc \<noteq> [] \<Longrightarrow> snd (merge_loop pc rs acc) \<noteq> []"
  by (induction rs arbitrary: acc) (auto simp: MultiMap_add_nonempty)

lemma mergeResults_later_failure:
  assumes "\<not> isFailure r0" "\<exists>r\<in>set rest. isFailure r"
  shows "mergeResults (r0 # rest) mapping s =
           (Inr (Failure (nextId s) (flatMap (r0 # rest) errors_or_empty)
                   (flatMap (r0 # rest) warnings)),
            s\<lparr>nextId := Suc (nextId s)\<rparr>)"
proof -
  let ?acc = "merge_loop (productionContext s) (r0 # rest) ([], [])"
  have "takeWhile (\<lambda>r. \<not> isFailure r) rest \<noteq> rest"
    using assms(2) by (auto simp: takeWhile_eq_all_conv)
  then have "length (takeWhile (\<lambda>r. \<not> isFailure r) rest) < length rest"
    using length_takeWhile_le[of "\<lambda>r. \<not> isFailure r" rest]
    by (metis le_neq_implies_less takeWhile_eq_take take_all_iff le_refl)
  then have len: "length (fst ?acc) \<noteq> length (r0 # rest)"
    using assms(1) by (simp add: merge_loop_values)
  have "snd ?acc \<noteq> []"
    using assms(1) by (simp add: merge_loop_groups MultiMap_add_nonempty)
  then obtain cps where "crossProductCaptures (map snd (snd ?acc)) = Inr cps"
    using crossProductCaptures_returns[of "map snd (snd ?acc)"] by auto
  with len show ?thesis
    by (simp add: mergeResults_def Let_def ok_def failure_def with_default_def
             del: merge_loop.simps)
qed

section \<open>Captures of a failing transformer\<close>

text \<open>
  Claim C9. When the traversal returns a \<^verbatim>\<open>Failure\<close> for the captured transformer on
  the input, the body of \<^verbatim>\<open>capture(key, transformer)\<close> returns that very \<^verbatim>\<open>Failure\<close>; it
  has no captures and \<^verbatim>\<open>get\<close> on it is the empty array. The capture object of line 67
  has been allocated, and nothing refers to it.
\<close>

theorem capture_of_failure:
  "transform i t s = (Inr out, s1) \<and> isFailure out \<longrightarrow>
     snd (capture self k t) i s = (Inr out, s1\<lparr>nextId := Suc (nextId s1)\<rparr>)
   \<and> get out k = [] \<and> captures_field out = None"
  by (cases out) (auto simp: capture_def bind_def Let_def)

text \<open>A transformer that always fails, captured and run on the input 4.\<close>

theorem capture_of_failure_witness:
  "snd (capture 6 (7::nat) (5, \<lambda>i. ok (failure (Str ''no'') None))) (4::nat)
       \<lparr>nextId = 10, productionContext = Map.empty, cache = Map.empty\<rparr>
     = (Inr (Failure 10 [''no''] []),
        \<lparr>nextId = 12, productionContext = [10 \<mapsto> 5],
          cache = [(5, 4) \<mapsto> Failure 10 [''no''] []]\<rparr>)
 \<and> get (Failure 10 [''no''] [] :: (nat, nat) ValidationResult) 7 = []"
proof -
  let ?s = "\<lparr>nextId = 10, productionContext = Map.empty, cache = Map.empty\<rparr> :: (nat, nat) state"
  let ?t = "(5, \<lambda>i. ok (failure (Str ''no'') None)) :: (nat, nat) Transformer"
  let ?out = "Failure 10 [''no''] [] :: (nat, nat) ValidationResult"
  let ?s1 = "\<lparr>nextId = 11, productionContext = [10 \<mapsto> 5], cache = [(5, 4) \<mapsto> ?out]\<rparr> :: (nat, nat) state"
  have "transform 4 ?t ?s = (Inr ?out, ?s1)"
    by (simp add: transform_def ok_def failure_def with_default_def)
  with capture_of_failure[of 4 ?t ?s ?out ?s1 6 7] show ?thesis
    by simp
qed

section \<open>Memoisation\<close>

lemma extends_cacheI: "(\<And>s. cache s \<subseteq>\<^sub>m cache (snd (m s))) \<Longrightarrow> extends_cache m"
  by (simp add: extends_cache_def)

lemma extends_cacheD: "extends_cache m \<Longrightarrow> cache s \<subseteq>\<^sub>m cache (snd (m s))"
  by (simp add: extends_cache_def)

lemma extends_valid: "extends_cache (ok (valid v ws cs))"
  by (simp add: extends_cache_def ok_def valid_def)

lemma extends_invalid: "extends_cache (ok (invalid v es ws cs))"
  by (simp add: extends_cache_def ok_def invalid_def)

lemma extends_failure: "extends_cache (ok (failure es ws))"
  by (simp add: extends_cache_def ok_def failure_def)

lemma extends_bind:
  assumes "\<And>v. extends_cache (f v)"
  shows "extends_cache (bind r f)"
proof (rule extends_cacheI)
  fix s
  have f: "cache s \<subseteq>\<^sub>m cache (snd (f (the_value r) s))"
    using assms by (rule extends_cacheD)
  show "cache s \<subseteq>\<^sub>m cache (snd (bind r f s))"
  proof (cases "isFailure r")
    case True
    then show ?thesis by (simp add: bind_def)
  next
    case False
    obtain x s1 where fx: "f (the_value r) s = (x, s1)" by (cases "f (the_value r) s")
    with f have "cache s \<subseteq>\<^sub>m cache s1" by simp
    with False fx show ?thesis
      by (cases x) (auto simp: bind_def Let_def ok_def failure_def invalid_def valid_def split: sum.splits)
  qed
qed

lemma extends_mergeResults:
  fixes m :: "'v list \<Rightarrow> (('v, 'k) ValidationResult, 'v, 'k) comp"
  assumes "\<And>vs. extends_cache (m vs)"
  shows "extends_cache (mergeResults rs m)"
proof (rule extends_cacheI)
  fix s :: "('v, 'k) state"
  let ?acc = "merge_loop (productionContext s) rs ([], [])"
  have m: "cache s \<subseteq>\<^sub>m cache (snd (m (fst ?acc) s))"
    using assms by (rule extends_cacheD)
  obtain x s1 where mx: "m (fst ?acc) s = (x, s1)" by (cases "m (fst ?acc) s")
  with m have s1: "cache s \<subseteq>\<^sub>m cache s1" by simp
  have b: "\<And>v f. (\<And>u. extends_cache (f u)) \<Longrightarrow> cache s \<subseteq>\<^sub>m cache (snd (bind v f s1))"
    using s1 extends_bind[THEN extends_cacheD] map_le_trans by blast
  show "cache s \<subseteq>\<^sub>m cache (snd (mergeResults rs m s))"
    using mx s1 b[OF extends_valid] b[OF extends_invalid]
    by (cases x) (auto simp: mergeResults_def Let_def ok_def failure_def split: sum.splits)
qed

lemma extends_transform:
  assumes "extends_cache (snd t i)"
  shows "extends_cache (transform i t)"
proof (rule extends_cacheI)
  fix s
  have b: "cache s \<subseteq>\<^sub>m cache (snd (snd t i s))"
    using assms by (rule extends_cacheD)
  show "cache s \<subseteq>\<^sub>m cache (snd (transform i t s))"
  proof (cases "cache s (fst t, i)")
    case (Some bar)
    then show ?thesis by (simp add: transform_def)
  next
    case None
    obtain x s1 where bx: "snd t i s = (x, s1)" by (cases "snd t i s")
    with b have "cache s \<subseteq>\<^sub>m cache s1" by simp
    with None have "cache s \<subseteq>\<^sub>m (cache s1)((fst t, i) \<mapsto> r)" for r
      by (auto simp: map_le_def dom_def)
    with None bx \<open>cache s \<subseteq>\<^sub>m cache s1\<close> show ?thesis
      by (cases x) (simp_all add: transform_def)
  qed
qed

lemma extends_capture:
  assumes "extends_cache (snd t i)"
  shows "extends_cache (snd (capture self k t) i)"
proof (rule extends_cacheI)
  fix s
  have t: "cache s \<subseteq>\<^sub>m cache (snd (transform i t s))"
    using assms by (intro extends_cacheD extends_transform)
  obtain x s1 where tx: "transform i t s = (x, s1)" by (cases "transform i t s")
  with t have s1: "cache s \<subseteq>\<^sub>m cache s1" by simp
  have "cache (s1\<lparr>nextId := Suc (nextId s1)\<rparr>) \<subseteq>\<^sub>m cache (snd (bind out f (s1\<lparr>nextId := Suc (nextId s1)\<rparr>)))"
    if "\<And>u. extends_cache (f u)" for out f
    using that by (intro extends_cacheD extends_bind)
  then have "cache s \<subseteq>\<^sub>m cache (snd (bind out f (s1\<lparr>nextId := Suc (nextId s1)\<rparr>)))"
    if "\<And>u. extends_cache (f u)" for out f
    using that s1 map_le_trans by fastforce
  from this[OF extends_valid] tx s1 show "cache s \<subseteq>\<^sub>m cache (snd (snd (capture self k t) i s))"
    by (cases x) (simp_all add: capture_def Let_def)
qed

lemma extends_chain_rest:
  assumes "\<And>t i. t \<in> set ts \<Longrightarrow> extends_cache (snd t i)"
  shows "cache s \<subseteq>\<^sub>m cache (snd (chain_rest ts r s))"
  using assms
proof (induction ts arbitrary: r s)
  case Nil
  then show ?case by simp
next
  case (Cons t ts)
  have "extends_cache (bind r (\<lambda>lastValue. transform lastValue t))"
    by (intro extends_bind extends_transform Cons.prems) simp
  then have b: "cache s \<subseteq>\<^sub>m cache (snd (bind r (\<lambda>lastValue. transform lastValue t) s))"
    by (rule extends_cacheD)
  obtain x s1 where bx: "bind r (\<lambda>lastValue. transform lastValue t) s = (x, s1)"
    by (cases "bind r (\<lambda>lastValue. transform lastValue t) s")
  with b have s1: "cache s \<subseteq>\<^sub>m cache s1" by simp
  show ?case
  proof (cases x)
    case (Inl e)
    with bx s1 show ?thesis by simp
  next
    case (Inr r1)
    have "cache s1 \<subseteq>\<^sub>m cache (snd (chain_rest ts r1 s1))"
      by (rule Cons.IH) (simp add: Cons.prems)
    with s1 have "cache s \<subseteq>\<^sub>m cache (snd (chain_rest ts r1 s1))"
      by (rule map_le_trans)
    with bx Inr show ?thesis by simp
  qed
qed

lemma extends_chain:
  assumes "\<And>t i. t \<in> set ts \<Longrightarrow> extends_cache (snd t i)"
  shows "extends_cache (snd (chain self ts) i)"
proof (rule extends_cacheI)
  fix s
  show "cache s \<subseteq>\<^sub>m cache (snd (snd (chain self ts) i s))"
  proof (cases ts)
    case Nil
    then show ?thesis by (simp add: chain_def)
  next
    case (Cons first rest)
    have "cache s \<subseteq>\<^sub>m cache (snd (transform i first s))"
      by (intro extends_cacheD extends_transform assms) (simp add: Cons)
    moreover obtain x s1 where tx: "transform i first s = (x, s1)" by (cases "transform i first s")
    ultimately have s1: "cache s \<subseteq>\<^sub>m cache s1" by simp
    show ?thesis
    proof (cases x)
      case (Inl e)
      with tx s1 Cons show ?thesis by (simp add: chain_def)
    next
      case (Inr r1)
      have "cache s1 \<subseteq>\<^sub>m cache (snd (chain_rest rest r1 s1))"
        by (rule extends_chain_rest) (simp add: assms Cons)
      with s1 have "cache s \<subseteq>\<^sub>m cache (snd (chain_rest rest r1 s1))"
        by (rule map_le_trans)
      with tx Inr Cons show ?thesis by (simp add: chain_def)
    qed
  qed
qed

lemma extends_transform_root: "extends_cache (transform_root i t)"
  by (simp add: extends_cache_def transform_root_def split: prod.splits)

lemma transform_caches:
  assumes "transform i t s = (Inr r, s1)"
  shows "cache s1 (fst t, i) = Some r"
proof (cases "cache s (fst t, i)")
  case None
  with assms show ?thesis
    by (auto simp: transform_def split: prod.splits sum.splits)
next
  case (Some bar)
  with assms show ?thesis by (auto simp: transform_def)
qed

text \<open>
  Claim C5. Once a request for a transformer and an input has returned a result, every
  later request for the same pair in the same traversal (after any computation that
  extends the cache, as every step of the traversal does) returns that very object and
  leaves the state as it is, whatever the body of the transformer: the transformer is
  not invoked again.
\<close>

theorem transform_memoized:
  assumes "transform i t s = (Inr r, s1)"
      and "extends_cache between"
      and "between s1 = (x, s2)"
  shows "transform i t s2 = (Inr r, s2) \<and> (\<forall>body. transform i (fst t, body) s2 = (Inr r, s2))"
proof -
  have "cache s1 (fst t, i) = Some r"
    using assms(1) by (rule transform_caches)
  moreover have "cache s1 \<subseteq>\<^sub>m cache s2"
    using extends_cacheD[OF assms(2), of s1] assms(3) by simp
  ultimately have "cache s2 (fst t, i) = Some r"
    by (auto simp: map_le_def dom_def)
  then show ?thesis by (simp add: transform_def)
qed

text \<open>
  The transformer \<^verbatim>\<open>n => valid(n * 10)\<close> of the test file is requested for 4, then for 6,
  then again for 4 with another body under the same identity: the third request returns
  the object of the first.
\<close>

theorem transform_memoized_witness:
  "transform (4::nat) (5, \<lambda>i. ok (failure (Str ''not invoked'') None))
     (snd (transform 6 (5, \<lambda>i. ok (valid (i * 10) None None))
        (snd (transform 4 (5, \<lambda>i. ok (valid (i * 10) None None))
           (\<lparr>nextId = 10, productionContext = Map.empty, cache = Map.empty\<rparr> :: (nat, nat) state)))))
   = (Inr (Valid 10 40 [] [CaptureSet [] []]),
      snd (transform 6 (5, \<lambda>i. ok (valid (i * 10) None None))
        (snd (transform 4 (5, \<lambda>i. ok (valid (i * 10) None None))
           (\<lparr>nextId = 10, productionContext = Map.empty, cache = Map.empty\<rparr> :: (nat, nat) state)))))"
proof -
  let ?s = "\<lparr>nextId = 10, productionContext = Map.empty, cache = Map.empty\<rparr> :: (nat, nat) state"
  let ?t = "(5, \<lambda>i. ok (valid (i * 10) None None)) :: (nat, nat) Transformer"
  let ?r = "Valid 10 40 [] [CaptureSet [] []] :: (nat, nat) ValidationResult"
  let ?s1 = "snd (transform 4 ?t ?s)"
  have 1: "transform 4 ?t ?s = (Inr ?r, ?s1)"
    by (simp add: transform_def ok_def valid_def with_default_def CaptureSet_new_def)
  have 2: "extends_cache (transform 6 ?t)"
    by (rule extends_transform) (simp add: extends_valid)
  have 3: "transform 6 ?t ?s1 = (fst (transform 6 ?t ?s1), snd (transform 6 ?t ?s1))"
    by simp
  from transform_memoized[OF 1 2 3] show ?thesis by simp
qed

section \<open>Chains\<close>

lemma bind_failure: "value_field r = None \<Longrightarrow> bind r f s = (Inr r, s)"
  by (cases r) (auto simp: bind_def)

lemma bind_step:
  assumes "value_field r = Some v" "f v s = (Inr nx, s1)"
  shows "\<exists>r'. bind r f s = (Inr r', s1\<lparr>nextId := Suc (nextId s1)\<rparr>) \<and>
           outcome r' = (value_field nx, errors_or_empty r @ errors_or_empty nx, warnings r @ warnings nx)"
proof -
  from assms(1) have nf: "\<not> isFailure r" and v: "the_value r = v" by (cases r; simp)+
  show ?thesis
  proof (cases "isFailure nx")
    case True
    then have "value_field nx = None" by (cases nx) auto
    with True nf v assms(2) show ?thesis
      by (simp add: bind_def Let_def ok_def failure_def with_default_def outcome_def errors_or_empty_def)
  next
    case False
    then have "value_field nx = Some (the_value nx)" by (cases nx) auto
    with False nf v assms(2) show ?thesis
      by (simp add: bind_def Let_def ok_def invalid_def valid_def with_default_def outcome_def errors_or_empty_def)
  qed
qed

lemma chain_rest_stages:
  assumes inv: "traversal_invariant I frame"
  shows "list_all2 (stage I frame) ts gs \<Longrightarrow> I s \<Longrightarrow>
     \<exists>r' s'. chain_rest ts r s = (Inr r', s') \<and> I s' \<and>
       (\<forall>n\<in>frame. \<forall>x. cache s' (n, x) = cache s (n, x)) \<and>
       outcome r' = run_stages gs (outcome r)"
proof (induction ts gs arbitrary: r s rule: list_all2_induct)
  case Nil
  then show ?case by simp
next
  case (Cons t ts g gs)
  show ?case
  proof (cases "value_field r")
    case None
    then have b: "bind r (\<lambda>lastValue. transform lastValue t) s = (Inr r, s)"
      by (rule bind_failure)
    from Cons.IH[OF Cons.prems, of r] obtain r' s' where
      "chain_rest ts r s = (Inr r', s')" "I s'"
      "\<forall>n\<in>frame. \<forall>x. cache s' (n, x) = cache s (n, x)"
      "outcome r' = run_stages gs (outcome r)" by blast
    with b None show ?thesis by (auto simp: outcome_def)
  next
    case (Some v)
    from Cons.hyps(1) Cons.prems obtain nx s1 where
      t: "transform v t s = (Inr nx, s1)" and o: "outcome nx = g v" and i1: "I s1"
      and fr: "\<forall>n\<in>frame. \<forall>x. cache s1 (n, x) = cache s (n, x)"
      unfolding stage_def by blast
    from bind_step[OF Some, of "\<lambda>lastValue. transform lastValue t", OF t] obtain r1 where
      b: "bind r (\<lambda>lastValue. transform lastValue t) s = (Inr r1, s1\<lparr>nextId := Suc (nextId s1)\<rparr>)"
      and o1: "outcome r1 = (value_field nx, errors_or_empty r @ errors_or_empty nx, warnings r @ warnings nx)"
      by blast
    have i2: "I (s1\<lparr>nextId := Suc (nextId s1)\<rparr>)"
      using inv i1 unfolding traversal_invariant_def by blast
    from Cons.IH[OF i2, of r1] obtain r' s' where
      c: "chain_rest ts r1 (s1\<lparr>nextId := Suc (nextId s1)\<rparr>) = (Inr r', s')" and "I s'"
      and fr': "\<forall>n\<in>frame. \<forall>x. cache s' (n, x) = cache (s1\<lparr>nextId := Suc (nextId s1)\<rparr>) (n, x)"
      and o': "outcome r' = run_stages gs (outcome r1)" by blast
    have "outcome r' = run_stages (g # gs) (outcome r)"
      using o' o1 o[symmetric] Some by (simp add: outcome_def)
    moreover have "\<forall>n\<in>frame. \<forall>x. cache s' (n, x) = cache s (n, x)"
      using fr fr' by simp
    ultimately show ?thesis using b c \<open>I s'\<close> by simp
  qed
qed

lemma chain_body_stages:
  assumes inv: "traversal_invariant I frame"
      and "stage I frame t g" "list_all2 (stage I frame) ts gs" "I s"
  shows "\<exists>r' s'. snd (chain self (t # ts)) i s = (Inr r', s') \<and> I s' \<and>
       (\<forall>n\<in>frame. \<forall>x. cache s' (n, x) = cache s (n, x)) \<and>
       outcome r' = run_stages gs (g i)"
proof -
  from assms(2,4) obtain r s1 where
    t: "transform i t s = (Inr r, s1)" and o: "outcome r = g i" and i1: "I s1"
    and fr: "\<forall>n\<in>frame. \<forall>x. cache s1 (n, x) = cache s (n, x)"
    unfolding stage_def by blast
  from chain_rest_stages[OF inv assms(3) i1, of r] obtain r' s' where
    "chain_rest ts r s1 = (Inr r', s')" "I s'"
    "\<forall>n\<in>frame. \<forall>x. cache s' (n, x) = cache s1 (n, x)"
    "outcome r' = run_stages gs (outcome r)" by blast
  with t o fr show ?thesis by (simp add: chain_def)
qed

lemma composite_request:
  assumes inv: "traversal_invariant I frame"
      and "stage I frame t g" "list_all2 (stage I frame) ts gs" "I s"
      and "self \<in> frame" "cache s (self, i) = None"
  shows "\<exists>r' s'. transform i (chain self (t # ts)) s = (Inr r', s') \<and> I s' \<and>
       (\<forall>n\<in>frame. n \<noteq> self \<longrightarrow> (\<forall>x. cache s' (n, x) = cache s (n, x))) \<and>
       outcome r' = run_stages gs (g i)"
proof -
  from chain_body_stages[OF assms(1-4), of self i] obtain r' s' where
    b: "snd (chain self (t # ts)) i s = (Inr r', s')" and i': "I s'"
    and fr: "\<forall>n\<in>frame. \<forall>x. cache s' (n, x) = cache s (n, x)"
    and o: "outcome r' = run_stages gs (g i)" by blast
  let ?s = "s'\<lparr>productionContext := (productionContext s')(oid r' \<mapsto> self),
                cache := (cache s')((self, i) \<mapsto> r')\<rparr>"
  have self: "fst (chain self (t # ts)) = self" by (simp add: chain_def)
  have "transform i (chain self (t # ts)) s = (Inr r', ?s)"
    using b assms(6) by (simp add: transform_def self)
  moreover have "I ?s"
    using inv i' assms(5) unfolding traversal_invariant_def by blast
  moreover have "\<forall>n\<in>frame. n \<noteq> self \<longrightarrow> (\<forall>x. cache ?s (n, x) = cache s (n, x))"
    using fr by simp
  ultimately show ?thesis using o by blast
qed

lemma run_stages_acc:
  "run_stages gs (v, es, ws) =
     (case run_stages gs (v, [], []) of (v', es', ws') \<Rightarrow> (v', es @ es', ws @ ws'))"
proof (induction gs arbitrary: v es ws)
  case Nil
  then show ?case by simp
next
  case (Cons g gs)
  show ?case
  proof (cases v)
    case None
    then show ?thesis using Cons.IH[of None es ws] by simp
  next
    case (Some x)
    obtain v' es' ws' where g: "g x = (v', es', ws')" by (cases "g x")
    show ?thesis
      using Some g Cons.IH[of v' "es @ es'" "ws @ ws'"] Cons.IH[of v' "es'" "ws'"]
      by (simp split: prod.splits)
  qed
qed

lemma stage_order_run: "snd (run_stages [gb, gc] (ga i)) = stage_order ga gb gc i"
  by (simp add: stage_order_def split: prod.splits option.splits)

lemma diag_outcome: "(errors_or_empty r, warnings r) = snd (outcome r)"
  by (simp add: outcome_def)

lemma flat_run:
  assumes inv: "traversal_invariant I frame"
      and "stage I frame a ga" "stage I frame b gb" "stage I frame c gc" "I s"
  shows "\<exists>r s'. snd (chain n [a, b, c]) i s = (Inr r, s') \<and>
           outcome r = run_stages [gb, gc] (ga i)"
  using chain_body_stages[OF inv assms(2) _ assms(5), of "[b, c]" "[gb, gc]" n i] assms(3,4)
  by auto

lemma left_run:
  assumes inv: "traversal_invariant I frame"
      and "stage I frame a ga" "stage I frame b gb" "stage I frame c gc" "I s"
      and "ab \<in> frame" "cache s (ab, i) = None"
  shows "\<exists>r s'. snd (chain n [chain ab [a, b], c]) i s = (Inr r, s') \<and>
           outcome r = run_stages [gb, gc] (ga i)"
proof -
  from composite_request[OF inv assms(2) _ assms(5,6,7), of "[b]" "[gb]"] assms(3)
  obtain r1 s1 where t: "transform i (chain ab [a, b]) s = (Inr r1, s1)" and i1: "I s1"
    and o1: "outcome r1 = run_stages [gb] (ga i)" by auto
  from chain_rest_stages[OF inv _ i1, of "[c]" "[gc]" r1] assms(4)
  obtain r s' where c: "chain_rest [c] r1 s1 = (Inr r, s')"
    and o: "outcome r = run_stages [gc] (outcome r1)" by auto
  have "run_stages [gc] (run_stages [gb] (ga i)) = run_stages [gb, gc] (ga i)"
  proof -
    obtain v es ws where g: "ga i = (v, es, ws)" by (cases "ga i")
    show ?thesis unfolding g by (cases v) (auto split: prod.splits)
  qed
  with t c o o1 show ?thesis by (simp add: chain_def)
qed


lemma run_stages_prefix:
  "run_stages gs (v, ea @ eb, wa @ wb) =
     (case run_stages gs (v, eb, wb) of (v', es', ws') \<Rightarrow> (v', ea @ es', wa @ ws'))"
  by (simp add: run_stages_acc[of gs v "ea @ eb" "wa @ wb"] run_stages_acc[of gs v eb wb]
        split: prod.splits)

lemma right_run:
  assumes inv: "traversal_invariant I frame"
      and "stage I frame a ga" "stage I frame b gb" "stage I frame c gc" "I s"
      and "bc \<in> frame" "\<forall>x. cache s (bc, x) = None"
  shows "\<exists>r s'. snd (chain n [a, chain bc [b, c]]) i s = (Inr r, s') \<and>
           outcome r = run_stages [gb, gc] (ga i)"
proof -
  from assms(2,5) obtain ra s1 where
    t: "transform i a s = (Inr ra, s1)" and o: "outcome ra = ga i" and i1: "I s1"
    and fr: "\<forall>n\<in>frame. \<forall>x. cache s1 (n, x) = cache s (n, x)"
    unfolding stage_def by blast
  show ?thesis
  proof (cases "value_field ra")
    case None
    then have "bind ra (\<lambda>lastValue. transform lastValue (chain bc [b, c])) s1 = (Inr ra, s1)"
      by (rule bind_failure)
    moreover have "outcome ra = run_stages [gb, gc] (ga i)"
      using o None by (simp add: outcome_def o[symmetric])
    ultimately show ?thesis using t by (simp add: chain_def)
  next
    case (Some va)
    have miss: "cache s1 (bc, va) = None"
      using fr assms(6,7) by simp
    from composite_request[OF inv assms(3) _ i1 assms(6) miss, of "[c]" "[gc]"] assms(4)
    obtain rbc s2 where tb: "transform va (chain bc [b, c]) s1 = (Inr rbc, s2)"
      and ob: "outcome rbc = run_stages [gc] (gb va)" by auto
    from bind_step[OF Some, of "\<lambda>lastValue. transform lastValue (chain bc [b, c])", OF tb]
    obtain r where
      b: "bind ra (\<lambda>lastValue. transform lastValue (chain bc [b, c])) s1 =
            (Inr r, s2\<lparr>nextId := Suc (nextId s2)\<rparr>)"
      and orr: "outcome r = (value_field rbc, errors_or_empty ra @ errors_or_empty rbc,
                  warnings ra @ warnings rbc)" by blast
    obtain vb eb wb where g: "gb va = (vb, eb, wb)" by (cases "gb va")
    have "run_stages [gb, gc] (ga i) =
            run_stages [gc] (vb, errors_or_empty ra @ eb, warnings ra @ wb)"
      using Some g by (simp add: o[symmetric] outcome_def)
    also have "\<dots> = (case run_stages [gc] (vb, eb, wb) of
                       (v', es', ws') \<Rightarrow> (v', errors_or_empty ra @ es', warnings ra @ ws'))"
      by (rule run_stages_prefix)
    also have "\<dots> = outcome r"
      using ob[symmetric] g orr by (simp add: outcome_def)
    finally have "outcome r = run_stages [gb, gc] (ga i)" by simp
    with t b show ?thesis by (simp add: chain_def)
  qed
qed

text \<open>
  Transformers that build one result from their input and make no request of their own
  are stages, for the invariant \<open>cache_consistent\<close>.
\<close>

lemma cache_consistent_invariant:
  assumes "\<forall>n\<in>frame. spec n = None"
  shows "traversal_invariant (cache_consistent spec) frame"
  using assms unfolding traversal_invariant_def cache_consistent_def by auto

lemma leaf_stage:
  fixes body :: "'v \<Rightarrow> (('v, 'k) ValidationResult, 'v, 'k) comp"
  assumes spec: "spec tid = Some g" and frame: "tid \<notin> frame"
      and body: "\<And>i s. \<exists>r. body i s = (Inr r, s\<lparr>nextId := Suc (nextId s)\<rparr>) \<and> outcome r = g i"
  shows "stage (cache_consistent spec) frame (tid, body) g"
  unfolding stage_def
proof (intro allI impI)
  fix i and s :: "('v, 'k) state"
  assume I: "cache_consistent spec s"
  show "\<exists>r s1. transform i (tid, body) s = (Inr r, s1) \<and> outcome r = g i \<and>
          cache_consistent spec s1 \<and> (\<forall>n\<in>frame. \<forall>x. cache s1 (n, x) = cache s (n, x))"
  proof (cases "cache s (tid, i)")
    case (Some bar)
    then have "transform i (tid, body) s = (Inr bar, s)" by (simp add: transform_def)
    moreover have "outcome bar = g i"
      using I Some spec unfolding cache_consistent_def by blast
    ultimately show ?thesis using I by simp
  next
    case None
    from body[of i s] obtain r where
      b: "body i s = (Inr r, s\<lparr>nextId := Suc (nextId s)\<rparr>)" and o: "outcome r = g i" by blast
    let ?s1 = "s\<lparr>nextId := Suc (nextId s),
                  productionContext := (productionContext s)(oid r \<mapsto> tid),
                  cache := (cache s)((tid, i) \<mapsto> r)\<rparr>"
    have "transform i (tid, body) s = (Inr r, ?s1)"
      using None b by (simp add: transform_def)
    moreover have "cache_consistent spec ?s1"
      using I o spec unfolding cache_consistent_def by auto
    moreover have "\<forall>n\<in>frame. \<forall>x. cache ?s1 (n, x) = cache s (n, x)"
      using frame by auto
    ultimately show ?thesis using o by blast
  qed
qed

text \<open>
  Claim C8. For three stages \<open>a\<close>, \<open>b\<close>, \<open>c\<close> whose outcomes are functions of their
  inputs, the three groupings of the chain, each run by \<^verbatim>\<open>__transform__\<close> on the same
  input, return results whose errors and warnings are the errors and warnings of the
  stages, concatenated in stage order.
\<close>

theorem chain_grouping:
  assumes "traversal_invariant I {ab, bc}"
      and "I (s\<lparr>cache := Map.empty\<rparr>)"
      and "stage I {ab, bc} a ga" "stage I {ab, bc} b gb" "stage I {ab, bc} c gc"
  shows "\<exists>r1 r2 r3 s1 s2 s3.
           transform_root i (chain n1 [a, b, c]) s = (Inr r1, s1) \<and>
           transform_root i (chain n2 [chain ab [a, b], c]) s = (Inr r2, s2) \<and>
           transform_root i (chain n3 [a, chain bc [b, c]]) s = (Inr r3, s3) \<and>
           (errors_or_empty r1, warnings r1) = stage_order ga gb gc i \<and>
           (errors_or_empty r2, warnings r2) = stage_order ga gb gc i \<and>
           (errors_or_empty r3, warnings r3) = stage_order ga gb gc i"
proof -
  let ?s = "s\<lparr>cache := Map.empty\<rparr>"
  from flat_run[OF assms(1,3,4,5,2), of n1 i] obtain r1 s1 where
    1: "snd (chain n1 [a, b, c]) i ?s = (Inr r1, s1)"
    and o1: "outcome r1 = run_stages [gb, gc] (ga i)" by blast
  from left_run[OF assms(1,3,4,5,2), of ab i n2] obtain r2 s2 where
    2: "snd (chain n2 [chain ab [a, b], c]) i ?s = (Inr r2, s2)"
    and o2: "outcome r2 = run_stages [gb, gc] (ga i)" by auto
  from right_run[OF assms(1,3,4,5,2), of bc n3 i] obtain r3 s3 where
    3: "snd (chain n3 [a, chain bc [b, c]]) i ?s = (Inr r3, s3)"
    and o3: "outcome r3 = run_stages [gb, gc] (ga i)" by auto
  have "(errors_or_empty r1, warnings r1) = stage_order ga gb gc i"
    unfolding diag_outcome o1 by (rule stage_order_run)
  moreover have "(errors_or_empty r2, warnings r2) = stage_order ga gb gc i"
    unfolding diag_outcome o2 by (rule stage_order_run)
  moreover have "(errors_or_empty r3, warnings r3) = stage_order ga gb gc i"
    unfolding diag_outcome o3 by (rule stage_order_run)
  moreover have "transform_root i (chain n1 [a, b, c]) s = (Inr r1, s1\<lparr>cache := cache s\<rparr>)"
    using 1 by (simp add: transform_root_def)
  moreover have "transform_root i (chain n2 [chain ab [a, b], c]) s = (Inr r2, s2\<lparr>cache := cache s\<rparr>)"
    using 2 by (simp add: transform_root_def)
  moreover have "transform_root i (chain n3 [a, chain bc [b, c]]) s = (Inr r3, s3\<lparr>cache := cache s\<rparr>)"
    using 3 by (simp add: transform_root_def)
  ultimately show ?thesis by blast
qed

text \<open>
  Three such stages: \<^verbatim>\<open>n => valid(n * 10, 'wa')\<close>, \<^verbatim>\<open>n => invalid(n, 'eb')\<close> and
  \<^verbatim>\<open>n => failure('ec', 'wc')\<close>.
\<close>

theorem chain_grouping_witness:
  "\<exists>r1 r2 r3 s1 s2 s3.
     transform_root (4::nat)
       (chain 20 [(5, \<lambda>i. ok (valid (i * 10) (Some (Str ''wa'')) None)),
                  (6, \<lambda>i. ok (invalid i (Some (Str ''eb'')) None None)),
                  (7, \<lambda>i. ok (failure (Str ''ec'') (Some (Str ''wc''))))])
       (\<lparr>nextId = 10, productionContext = Map.empty, cache = Map.empty\<rparr> :: (nat, nat) state)
       = (Inr r1, s1)
   \<and> transform_root 4
       (chain 21 [chain 30 [(5, \<lambda>i. ok (valid (i * 10) (Some (Str ''wa'')) None)),
                            (6, \<lambda>i. ok (invalid i (Some (Str ''eb'')) None None))],
                  (7, \<lambda>i. ok (failure (Str ''ec'') (Some (Str ''wc''))))])
       (\<lparr>nextId = 10, productionContext = Map.empty, cache = Map.empty\<rparr> :: (nat, nat) state)
       = (Inr r2, s2)
   \<and> transform_root 4
       (chain 22 [(5, \<lambda>i. ok (valid (i * 10) (Some (Str ''wa'')) None)),
                  chain 31 [(6, \<lambda>i. ok (invalid i (Some (Str ''eb'')) None None)),
                            (7, \<lambda>i. ok (failure (Str ''ec'') (Some (Str ''wc''))))]])
       (\<lparr>nextId = 10, productionContext = Map.empty, cache = Map.empty\<rparr> :: (nat, nat) state)
       = (Inr r3, s3)
   \<and> (errors_or_empty r1, warnings r1) = ([''eb'', ''ec''], [''wa'', ''wc''])
   \<and> (errors_or_empty r2, warnings r2) = ([''eb'', ''ec''], [''wa'', ''wc''])
   \<and> (errors_or_empty r3, warnings r3) = ([''eb'', ''ec''], [''wa'', ''wc''])"
proof -
  let ?s = "\<lparr>nextId = 10, productionContext = Map.empty, cache = Map.empty\<rparr> :: (nat, nat) state"
  let ?ga = "\<lambda>i::nat. (Some (i * 10), [], [''wa''])"
  let ?gb = "\<lambda>i::nat. (Some i, [''eb''], [])"
  let ?gc = "\<lambda>i::nat. (None :: nat option, [''ec''], [''wc''])"
  let ?a = "(5, \<lambda>i. ok (valid (i * 10) (Some (Str ''wa'')) None)) :: (nat, nat) Transformer"
  let ?b = "(6, \<lambda>i. ok (invalid i (Some (Str ''eb'')) None None)) :: (nat, nat) Transformer"
  let ?c = "(7, \<lambda>i. ok (failure (Str ''ec'') (Some (Str ''wc'')))) :: (nat, nat) Transformer"
  let ?spec = "[5 \<mapsto> ?ga, 6 \<mapsto> ?gb, 7 \<mapsto> ?gc]"
  let ?I = "cache_consistent ?spec :: (nat, nat) state \<Rightarrow> bool"
  have inv: "traversal_invariant ?I {30, 31}"
    by (rule cache_consistent_invariant) simp
  have I0: "?I (?s\<lparr>cache := Map.empty\<rparr>)"
    by (simp add: cache_consistent_def)
  have a: "stage ?I {30, 31} ?a ?ga"
    by (rule leaf_stage)
       (simp_all add: ok_def valid_def with_default_def outcome_def errors_or_empty_def)
  have b: "stage ?I {30, 31} ?b ?gb"
    by (rule leaf_stage)
       (simp_all add: ok_def invalid_def with_default_def outcome_def errors_or_empty_def)
  have c: "stage ?I {30, 31} ?c ?gc"
    by (rule leaf_stage)
       (simp_all add: ok_def failure_def with_default_def outcome_def errors_or_empty_def)
  have so: "stage_order ?ga ?gb ?gc 4 = ([''eb'', ''ec''], [''wa'', ''wc''])"
    by (simp add: stage_order_def)
  from chain_grouping[OF inv I0 a b c, of 4 20 21 22] show ?thesis
    unfolding so .
qed

section \<open>Scenarios\<close>

text \<open>The definitions that a run unfolds.\<close>

lemmas run_defs = transform_root_def transform_def capture_def bind_def mergeResults_def
  ok_def valid_def invalid_def failure_def with_default_def errors_or_empty_def flatMap_def
  CaptureSet_new_def merge_child_def CaptureSet_add_def CaptureSet_get_def Map_has_def
  Map_set_def Map_delete_def Set_add_def Set_of_def MultiMap_add_def getCanonical_def just_def

text \<open>
  \<^verbatim>\<open>transform(4, capture(key, t))\<close> for a transformer \<^verbatim>\<open>t\<close> that accepts its input:
  \<^verbatim>\<open>getCanonical(key)\<close> on the result is the capture of the input 4 and of the result of
  \<^verbatim>\<open>t\<close>.
\<close>

lemma scenario_capture_canonical:
  "(case transform_root (4::nat) (capture 6 (7::nat) (5, \<lambda>i. ok (valid i None None)))
           \<lparr>nextId = 10, productionContext = Map.empty, cache = Map.empty\<rparr> of
      (Inr r, s) \<Rightarrow> getCanonical r 7
    | (Inl e, s) \<Rightarrow> None)
   = Some (Capture 11 4 (Valid 10 4 [] [CaptureSet [] []]))"
  by (simp add: run_defs)

text \<open>
  Two requests for the same captured transformer on the same input, merged as
  \<^verbatim>\<open>arrayCollection\<close> merges the results of the elements of \<^verbatim>\<open>[4, 4]\<close>: the second
  request returns the object of the first, the two capture sets hold the same capture
  object, and it is the canonical one.
\<close>

lemma scenario_same_input_twice:
  "(case transform (4::nat) (capture 6 (7::nat) (5, \<lambda>i. ok (valid i None None)))
           \<lparr>nextId = 10, productionContext = Map.empty, cache = Map.empty\<rparr> of
      (Inr r1, s1) \<Rightarrow>
        (case transform 4 (capture 6 7 (5, \<lambda>i. ok (valid i None None))) s1 of
           (Inr r2, s2) \<Rightarrow>
             (case mergeResults [r1, r2] (\<lambda>vs. ok (valid (sum_list vs) None None)) s2 of
                (Inr r, s3) \<Rightarrow> (r1 = r2, get r 7, getCanonical r 7))))
   = (True,
      [Some (Capture 11 4 (Valid 10 4 [] [CaptureSet [] []])),
       Some (Capture 11 4 (Valid 10 4 [] [CaptureSet [] []]))],
      Some (Capture 11 4 (Valid 10 4 [] [CaptureSet [] []])))"
  by (simp add: run_defs)

text \<open>The same for \<^verbatim>\<open>[4, 5]\<close>: two capture objects, and no canonical one.\<close>

lemma scenario_two_inputs:
  "(case transform (4::nat) (capture 6 (7::nat) (5, \<lambda>i. ok (valid i None None)))
           \<lparr>nextId = 10, productionContext = Map.empty, cache = Map.empty\<rparr> of
      (Inr r1, s1) \<Rightarrow>
        (case transform 5 (capture 6 7 (5, \<lambda>i. ok (valid i None None))) s1 of
           (Inr r2, s2) \<Rightarrow>
             (case mergeResults [r1, r2] (\<lambda>vs. ok (valid (sum_list vs) None None)) s2 of
                (Inr r, s3) \<Rightarrow> (get r 7, getCanonical r 7))))
   = ([Some (Capture 11 4 (Valid 10 4 [] [CaptureSet [] []])),
       Some (Capture 15 5 (Valid 14 5 [] [CaptureSet [] []]))],
      None)"
  by (simp add: run_defs)

end
